theory Spec2Isabelle
  imports Main "HOL-Library.Word" "HOL-Library.Multiset" "HOL-Library.Code_Target_Nat"
begin

section \<open>Bytes, buffers and errors\<close>

text \<open>
  The repository holds two versions of the relay server: \<^verbatim>\<open>backend/server.js\<close> and a
  second server source (\<^verbatim>\<open>unnamed/part_003\<close>) that writes the WAV header by hand,
  decodes every fragment on its own, filters the \<^verbatim>\<open>unclear audio\<close> reply and discards
  the unfinished window on close. Both are embedded; a \<open>server\<close> value selects one.
\<close>

datatype server = Backend | Alternate

type_synonym byte = "8 word"

text \<open>The exceptions of the modelled code: the integer writers of a buffer throw RangeError.\<close>

datatype js_error = RangeError

text \<open>Sequencing of steps that may throw: the first error ends the block.\<close>

definition and_then :: "js_error + 'a \<Rightarrow> ('a \<Rightarrow> js_error + 'b) \<Rightarrow> js_error + 'b" where
  "and_then r f = (case r of Inl e \<Rightarrow> Inl e | Inr x \<Rightarrow> f x)"

text \<open>
  \<^verbatim>\<open>buf.write(str, offset)\<close> and the integer writers store bytes at consecutive positions
  of a buffer of fixed length. A list update past the end changes nothing, as
  \<^verbatim>\<open>buf.write\<close> stores only what fits.
\<close>

fun write_at :: "byte list \<Rightarrow> nat \<Rightarrow> byte list \<Rightarrow> byte list" where
  "write_at buf off [] = buf"
| "write_at buf off (b # bs) = write_at (buf[off := b]) (Suc off) bs"

definition ascii :: "string \<Rightarrow> byte list" where
  "ascii s = map of_char s"

definition write_str :: "string \<Rightarrow> nat \<Rightarrow> byte list \<Rightarrow> js_error + byte list" where
  "write_str s off buf = Inr (write_at buf off (ascii s))"

text \<open>
  \<^verbatim>\<open>buf.writeUInt32LE(value, offset)\<close> and \<^verbatim>\<open>buf.writeUInt16LE(value, offset)\<close> throw a
  RangeError when the value does not fit the field or the field does not fit the buffer.
\<close>

definition le_bytes :: "nat \<Rightarrow> nat \<Rightarrow> byte list" where
  "le_bytes n v = map (\<lambda>i. word_of_nat (v div 256 ^ i)) [0..<n]"

definition writeUInt32LE :: "nat \<Rightarrow> nat \<Rightarrow> byte list \<Rightarrow> js_error + byte list" where
  "writeUInt32LE v off buf =
     (if v < 2 ^ 32 \<and> off + 4 \<le> length buf then Inr (write_at buf off (le_bytes 4 v))
      else Inl RangeError)"

definition writeUInt16LE :: "nat \<Rightarrow> nat \<Rightarrow> byte list \<Rightarrow> js_error + byte list" where
  "writeUInt16LE v off buf =
     (if v < 2 ^ 16 \<and> off + 2 \<le> length buf then Inr (write_at buf off (le_bytes 2 v))
      else Inl RangeError)"

text \<open>The readers a WAV decoder uses on the header; they state what a field holds.\<close>

definition readUInt32LE :: "byte list \<Rightarrow> nat \<Rightarrow> nat" where
  "readUInt32LE buf off =
     unat (buf ! off) + 256 * unat (buf ! (off + 1)) + 65536 * unat (buf ! (off + 2))
       + 16777216 * unat (buf ! (off + 3))"

definition readUInt16LE :: "byte list \<Rightarrow> nat \<Rightarrow> nat" where
  "readUInt16LE buf off = unat (buf ! off) + 256 * unat (buf ! (off + 1))"

section \<open>The WAV encoder\<close>

text \<open>
  \<^verbatim>\<open>createWAVFromPCM\<close> of the second server, from the decoded \<^verbatim>\<open>pcmData\<close> to
  \<^verbatim>\<open>wavBuffer\<close>: a zero-filled header of 44 bytes, the writes in the order of the source,
  then \<^verbatim>\<open>Buffer.concat([wavHeader, pcmData])\<close>. An exception of a write is rethrown by
  the function's own \<^verbatim>\<open>catch\<close>.
\<close>

definition wavHeader :: "nat \<Rightarrow> nat \<Rightarrow> js_error + byte list" where
  "wavHeader pcmLength sampleRate =
     and_then (write_str ''RIFF'' 0 (replicate 44 0)) (\<lambda>h.
     and_then (writeUInt32LE (36 + pcmLength) 4 h) (\<lambda>h.
     and_then (write_str ''WAVE'' 8 h) (\<lambda>h.
     and_then (write_str ''fmt '' 12 h) (\<lambda>h.
     and_then (writeUInt32LE 16 16 h) (\<lambda>h.
     and_then (writeUInt16LE 1 20 h) (\<lambda>h.
     and_then (writeUInt16LE 1 22 h) (\<lambda>h.
     and_then (writeUInt32LE sampleRate 24 h) (\<lambda>h.
     and_then (writeUInt32LE (sampleRate * 2) 28 h) (\<lambda>h.
     and_then (writeUInt16LE 2 32 h) (\<lambda>h.
     and_then (writeUInt16LE 16 34 h) (\<lambda>h.
     and_then (write_str ''data'' 36 h) (\<lambda>h.
     writeUInt32LE pcmLength 40 h))))))))))))"

definition wav_manual :: "byte list \<Rightarrow> nat \<Rightarrow> js_error + byte list" where
  "wav_manual pcmData sampleRate =
     and_then (wavHeader (length pcmData) sampleRate) (\<lambda>h. Inr (h @ pcmData))"


section \<open>Base64, as the runtime's buffers read and write it\<close>

text \<open>
  \<^verbatim>\<open>Buffer.from(s, 'base64')\<close> reads the characters in order: a character of the alphabet
  (standard or URL-safe) contributes six bits, any other character is skipped, and the
  first \<^verbatim>\<open>=\<close> ends the decoding. Four characters give three bytes, a final group of
  three gives two, of two gives one, and a single left-over character gives none.
\<close>

definition unbase64 :: "char \<Rightarrow> nat option" where
  "unbase64 c =
     (let n = (of_char c :: nat) in
      if 65 \<le> n \<and> n \<le> 90 then Some (n - 65)
      else if 97 \<le> n \<and> n \<le> 122 then Some (n - 71)
      else if 48 \<le> n \<and> n \<le> 57 then Some (n + 4)
      else if n = 43 \<or> n = 45 then Some 62
      else if n = 47 \<or> n = 95 then Some 63
      else None)"

fun sextets :: "string \<Rightarrow> nat list" where
  "sextets [] = []"
| "sextets (c # cs) =
     (if c = CHR ''='' then []
      else case unbase64 c of Some v \<Rightarrow> v # sextets cs | None \<Rightarrow> sextets cs)"

fun pack :: "nat list \<Rightarrow> byte list" where
  "pack (a # b # c # d # r) =
     word_of_nat (a * 4 + b div 16) # word_of_nat (b mod 16 * 16 + c div 4)
       # word_of_nat (c mod 4 * 64 + d) # pack r"
| "pack [a, b, c] = [word_of_nat (a * 4 + b div 16), word_of_nat (b mod 16 * 16 + c div 4)]"
| "pack [a, b] = [word_of_nat (a * 4 + b div 16)]"
| "pack [a] = []"
| "pack [] = []"

definition base64_decode :: "string \<Rightarrow> byte list" where
  "base64_decode s = pack (sextets s)"

text \<open>\<^verbatim>\<open>buf.toString('base64')\<close>: the standard alphabet, padded with \<^verbatim>\<open>=\<close>.\<close>

definition b64char :: "nat \<Rightarrow> char" where
  "b64char n =
     (if n < 26 then char_of (n + 65)
      else if n < 52 then char_of (n + 71)
      else if n < 62 then char_of (n - 4)
      else if n = 62 then CHR ''+'' else CHR ''/'')"

fun base64_encode_nat :: "nat list \<Rightarrow> string" where
  "base64_encode_nat (a # b # c # r) =
     b64char (a div 4) # b64char (a mod 4 * 16 + b div 16) # b64char (b mod 16 * 4 + c div 64)
       # b64char (c mod 64) # base64_encode_nat r"
| "base64_encode_nat [a, b] =
     [b64char (a div 4), b64char (a mod 4 * 16 + b div 16), b64char (b mod 16 * 4), CHR ''='']"
| "base64_encode_nat [a] = [b64char (a div 4), b64char (a mod 4 * 16), CHR ''='', CHR ''='']"
| "base64_encode_nat [] = []"

definition base64_encode :: "byte list \<Rightarrow> string" where
  "base64_encode bs = base64_encode_nat (map unat bs)"

section \<open>The encoder of backend/server.js\<close>

text \<open>
  \<^verbatim>\<open>new Int16Array(pcmData.buffer, pcmData.byteOffset, pcmData.length / 2)\<close> is a view of
  the buffer's memory with \<open>\<lfloor>length / 2\<rfloor>\<close> elements (the constructor truncates a fractional
  length): the bytes it shows are the first \<open>2 * \<lfloor>length / 2\<rfloor>\<close>.
\<close>

definition int16_view :: "byte list \<Rightarrow> byte list" where
  "int16_view pcmData = take (2 * (length pcmData div 2)) pcmData"

text \<open>
  Modelled from the spec: \<^verbatim>\<open>WaveFile.fromScratch(1, sampleRate, '16', samples)\<close> followed by
  \<^verbatim>\<open>toBuffer()\<close> belongs to the wavefile package, which is not among the sources. Section 6
  of the specification describes the container: a header of 44 bytes (RIFF magic, total
  size, WAVE marker, fmt chunk with format PCM, channel count, sample rate, byte rate,
  block align, bits per sample, data chunk with the payload length) and then the samples.
  The copy of the container that backend/server.js writes to \<^verbatim>\<open>audio_samples\<close> is left out.
\<close>

definition riff_header :: "nat \<Rightarrow> nat \<Rightarrow> byte list" where
  "riff_header dataLength sampleRate =
     ascii ''RIFF'' @ le_bytes 4 (36 + dataLength) @ ascii ''WAVE'' @ ascii ''fmt ''
       @ le_bytes 4 16 @ le_bytes 2 1 @ le_bytes 2 1 @ le_bytes 4 sampleRate
       @ le_bytes 4 (sampleRate * 2) @ le_bytes 2 2 @ le_bytes 2 16 @ ascii ''data''
       @ le_bytes 4 dataLength"

definition wavefile_toBuffer :: "byte list \<Rightarrow> nat \<Rightarrow> byte list" where
  "wavefile_toBuffer samples sampleRate = riff_header (length samples) sampleRate @ samples"

definition wav_wavefile :: "byte list \<Rightarrow> nat \<Rightarrow> js_error + byte list" where
  "wav_wavefile pcmData sampleRate = Inr (wavefile_toBuffer (int16_view pcmData) sampleRate)"

text \<open>
  \<^verbatim>\<open>createWAVFromPCM(pcmBase64Data, sampleRate)\<close> of either server: \<open>wavBuffer\<close> is the
  buffer built from the decoded input, the function returns its base64 text.
\<close>

definition wavBuffer :: "server \<Rightarrow> byte list \<Rightarrow> nat \<Rightarrow> js_error + byte list" where
  "wavBuffer v pcmData sampleRate =
     (case v of Alternate \<Rightarrow> wav_manual pcmData sampleRate
              | Backend \<Rightarrow> wav_wavefile pcmData sampleRate)"

definition createWAVFromPCM :: "server \<Rightarrow> string \<Rightarrow> nat \<Rightarrow> js_error + string" where
  "createWAVFromPCM v pcmBase64Data sampleRate =
     and_then (wavBuffer v (base64_decode pcmBase64Data) sampleRate)
       (\<lambda>wav. Inr (base64_encode wav))"

section \<open>Combining the fragments of a batch\<close>

text \<open>
  backend/server.js joins the base64 texts (\<^verbatim>\<open>currentBuffer.join('')\<close>); the second server
  decodes each fragment, concatenates the buffers and encodes the result again.
\<close>

definition combinedPCMBase64 :: "server \<Rightarrow> string list \<Rightarrow> string" where
  "combinedPCMBase64 v currentBuffer =
     (case v of Backend \<Rightarrow> concat currentBuffer
              | Alternate \<Rightarrow> base64_encode (concat (map base64_decode currentBuffer)))"

text \<open>The PCM bytes the encoder then works on: \<^verbatim>\<open>pcmData\<close> in \<^verbatim>\<open>createWAVFromPCM\<close>.\<close>

definition pcmData :: "server \<Rightarrow> string list \<Rightarrow> byte list" where
  "pcmData v currentBuffer = base64_decode (combinedPCMBase64 v currentBuffer)"

section \<open>Strings of the batch reply\<close>

text \<open>
  A string is a list of 8-bit characters, read as code units below U+0100: the model
  covers the texts made of those. \<^verbatim>\<open>String.prototype.trim\<close> removes white space and line
  terminators from both ends; the ones below U+0100 are tab, line feed, vertical tab, form
  feed, carriage return, space and the no-break space U+00A0. (U+0085 is not among them.)
  \<^verbatim>\<open>toLowerCase\<close> maps A to Z and the capital letters U+00C0 to U+00DE, the multiplication
  sign U+00D7 apart, to the letter 32 places on; every other character below U+0100 stays.
\<close>

definition is_space :: "char \<Rightarrow> bool" where
  "is_space c = (let n = (of_char c :: nat) in (9 \<le> n \<and> n \<le> 13) \<or> n = 32 \<or> n = 160)"

definition trim :: "string \<Rightarrow> string" where
  "trim s = rev (dropWhile is_space (rev (dropWhile is_space s)))"

definition lower_char :: "char \<Rightarrow> char" where
  "lower_char c =
     (let n = (of_char c :: nat) in
      if (65 \<le> n \<and> n \<le> 90) \<or> (192 \<le> n \<and> n \<le> 222 \<and> n \<noteq> 215) then char_of (n + 32)
      else c)"

definition toLowerCase :: "string \<Rightarrow> string" where
  "toLowerCase s = map lower_char s"

fun includes_str :: "string \<Rightarrow> string \<Rightarrow> bool" where
  "includes_str [] sub = (sub = [])"
| "includes_str (c # cs) sub = (take (length sub) (c # cs) = sub \<or> includes_str cs sub)"


section \<open>The connection\<close>

text \<open>
  The variables a connection handler closes over, and what it does to its surroundings:
  \<open>sent\<close> lists the \<^verbatim>\<open>ws.send\<close> calls in order, \<open>pending\<close> the
  \<^verbatim>\<open>ai.models.generateContent\<close> requests that have not completed, \<open>relayed\<close> the inputs
  handed to the streaming session, \<open>sessionClosed\<close> whether \<^verbatim>\<open>realtimeSession.close()\<close>
  was called. \<open>listening\<close> holds once \<^verbatim>\<open>ws.on('message')\<close> and \<^verbatim>\<open>ws.on('close')\<close> are
  registered, which is after \<^verbatim>\<open>await ai.live.connect\<close> has returned or thrown.
  A handler runs to completion before the next event is taken, as the event loop does.
\<close>

datatype out_msg =
    Status string
  | Realtime string
  | Corrected string nat
  | ErrorMsg string
  | ClosedMsg string

datatype relay_input = RelayAudio string | RelayText string

record batch_request =
  chunkId :: nat
  wavData :: string

record conn =
  realtimeSession :: bool
  audioBuffer :: "string list"
  batchInterval :: bool
  transcriptionCounter :: nat
  isProcessingBatch :: bool
  audioChunkCount :: nat
  listening :: bool
  sent :: "out_msg list"
  pending :: "batch_request list"
  relayed :: "relay_input list"
  sessionClosed :: bool

definition initial :: conn where
  "initial = \<lparr>realtimeSession = False, audioBuffer = [], batchInterval = False,
     transcriptionCounter = 0, isProcessingBatch = False, audioChunkCount = 0,
     listening = False, sent = [], pending = [], relayed = [], sessionClosed = False\<rparr>"

subsection \<open>processBatchAudio\<close>

text \<open>\<^verbatim>\<open>audioBuffer.push(data.audio)\<close>.\<close>

definition append_fragment :: "string \<Rightarrow> conn \<Rightarrow> conn" where
  "append_fragment fragment s = s\<lparr>audioBuffer := audioBuffer s @ [fragment]\<rparr>"

text \<open>
  The head of \<^verbatim>\<open>processBatchAudio\<close>: the guard, then the flag, the copy of the buffer, the
  chunk id taken from the counter (\<^verbatim>\<open>transcriptionCounter++\<close>) and the reset of the buffer.
  The result is the drained fragments with their chunk id, if the guard let the call pass.
\<close>

definition drain :: "conn \<Rightarrow> (string list \<times> nat) option \<times> conn" where
  "drain s =
     (if isProcessingBatch s \<or> audioBuffer s = [] then (None, s)
      else (Some (audioBuffer s, transcriptionCounter s),
            s\<lparr>isProcessingBatch := True, transcriptionCounter := transcriptionCounter s + 1,
              audioBuffer := []\<rparr>))"

text \<open>
  The rest up to \<^verbatim>\<open>await ai.models.generateContent\<close>. An exception of the encoder reaches
  the \<^verbatim>\<open>catch\<close>, and \<^verbatim>\<open>finally\<close> clears the flag with no request made.
\<close>

definition processBatchAudio :: "server \<Rightarrow> conn \<Rightarrow> conn" where
  "processBatchAudio v s =
     (case drain s of
        (None, s') \<Rightarrow> s'
      | (Some (currentBuffer, currentChunkId), s') \<Rightarrow>
          (case createWAVFromPCM v (combinedPCMBase64 v currentBuffer) 16000 of
             Inl e \<Rightarrow> s'\<lparr>isProcessingBatch := False\<rparr>
           | Inr wavBase64 \<Rightarrow>
               s'\<lparr>pending := pending s' @ [\<lparr>chunkId = currentChunkId, wavData = wavBase64\<rparr>]\<rparr>))"

text \<open>
  The outcome of the request: it is rejected (or, in the second server, the reply lacks
  \<^verbatim>\<open>candidates[0].content.parts[0]\<close>, which throws), or it carries a text, which may be
  undefined.
\<close>

datatype api_result = Rejected | Replied "string option"

text \<open>What the continuation of \<^verbatim>\<open>processBatchAudio\<close> sends for the reply.\<close>

definition corrected_messages :: "server \<Rightarrow> nat \<Rightarrow> api_result \<Rightarrow> out_msg list" where
  "corrected_messages v currentChunkId r =
     (case r of
        Rejected \<Rightarrow> []
      | Replied None \<Rightarrow> []
      | Replied (Some transcriptionText) \<Rightarrow>
          (case v of
             Alternate \<Rightarrow>
               if transcriptionText \<noteq> [] \<and> trim transcriptionText \<noteq> [] then
                 (if includes_str (toLowerCase transcriptionText) ''unclear audio'' then []
                  else [Corrected (trim transcriptionText) currentChunkId])
               else []
           | Backend \<Rightarrow>
               if transcriptionText \<noteq> [] then [Corrected (trim transcriptionText) currentChunkId]
               else []))"

text \<open>
  The continuation after the \<^verbatim>\<open>await\<close>, for the request with chunk id \<open>k\<close>: the reply is
  handled and \<^verbatim>\<open>finally\<close> clears the flag. Nothing completes that is not pending.
\<close>

definition batch_finished :: "server \<Rightarrow> nat \<Rightarrow> api_result \<Rightarrow> conn \<Rightarrow> conn" where
  "batch_finished v k r s =
     (if k \<in> set (map chunkId (pending s)) then
        s\<lparr>pending := filter (\<lambda>q. chunkId q \<noteq> k) (pending s),
          sent := sent s @ corrected_messages v k r,
          isProcessingBatch := False\<rparr>
      else s)"

subsection \<open>The streaming session\<close>

definition status_text :: "server \<Rightarrow> string" where
  "status_text v = (case v of Alternate \<Rightarrow> ''Connected to Gemini Live''
                            | Backend \<Rightarrow> ''Connected to Gemini'')"

definition connect_error_text :: "server \<Rightarrow> string" where
  "connect_error_text v = (case v of Alternate \<Rightarrow> ''Failed to connect to Gemini Live: ''
                                   | Backend \<Rightarrow> ''Failed to connect to Gemini: '')"

text \<open>The callback \<^verbatim>\<open>onopen\<close>: the status message, then \<^verbatim>\<open>setInterval(processBatchAudio, 3000)\<close>.\<close>

definition onopen :: "server \<Rightarrow> conn \<Rightarrow> conn" where
  "onopen v s = s\<lparr>sent := sent s @ [Status (status_text v)], batchInterval := True\<rparr>"

text \<open>\<^verbatim>\<open>realtimeSession = await ai.live.connect(...)\<close> returns, or throws into the \<^verbatim>\<open>catch\<close>.\<close>

definition connect_resolved :: "conn \<Rightarrow> conn" where
  "connect_resolved s = s\<lparr>realtimeSession := True, listening := True\<rparr>"

definition connect_failed :: "server \<Rightarrow> string \<Rightarrow> conn \<Rightarrow> conn" where
  "connect_failed v message s =
     s\<lparr>sent := sent s @ [ErrorMsg (connect_error_text v @ message)], listening := True\<rparr>"

text \<open>The callbacks \<^verbatim>\<open>onmessage\<close> (with the input transcription's text, if there is one),
  \<^verbatim>\<open>onerror\<close> and \<^verbatim>\<open>onclose\<close>.\<close>

definition onmessage :: "string option \<Rightarrow> conn \<Rightarrow> conn" where
  "onmessage inputTranscription s =
     (case inputTranscription of
        Some transcriptionText \<Rightarrow> s\<lparr>sent := sent s @ [Realtime transcriptionText]\<rparr>
      | None \<Rightarrow> s)"

definition onerror :: "string \<Rightarrow> conn \<Rightarrow> conn" where
  "onerror message s = s\<lparr>sent := sent s @ [ErrorMsg message]\<rparr>"

definition onclose :: "string \<Rightarrow> conn \<Rightarrow> conn" where
  "onclose reason s = s\<lparr>sent := sent s @ [ClosedMsg reason], batchInterval := False\<rparr>"

subsection \<open>Messages of the client\<close>

text \<open>
  What \<^verbatim>\<open>JSON.parse(message.toString())\<close> makes of an inbound message: it throws (with the
  error's message), it yields \<^verbatim>\<open>null\<close>, on which reading \<^verbatim>\<open>data.type\<close> throws, or it yields
  a value whose \<^verbatim>\<open>type\<close> is a string or is not, with its \<^verbatim>\<open>audio\<close> and \<^verbatim>\<open>text\<close> members
  (strings, as the client sends them).
\<close>

datatype client_msg =
    Unparseable string
  | ParsedNull string
  | Json "string option" string string

text \<open>
  \<^verbatim>\<open>ws.on('message')\<close>. \<open>relay\<close> is the outcome of \<^verbatim>\<open>sendRealtimeInput\<close> should the handler
  call it: \<open>None\<close> when it returns, the error's message when it throws. The second server
  catches that error around the audio input and logs it; elsewhere it reaches the outer
  \<^verbatim>\<open>catch\<close>, which reports it to the client. An audio message without a session takes no
  branch in backend/server.js and the logging branch in the second server; both are the
  last \<open>else\<close> here.
\<close>

definition on_message :: "server \<Rightarrow> client_msg \<Rightarrow> string option \<Rightarrow> conn \<Rightarrow> conn" where
  "on_message v m relay s =
     (case m of
        Unparseable e \<Rightarrow> s\<lparr>sent := sent s @ [ErrorMsg e]\<rparr>
      | ParsedNull e \<Rightarrow> s\<lparr>sent := sent s @ [ErrorMsg e]\<rparr>
      | Json ty audio text \<Rightarrow>
          if ty = Some ''audio'' \<and> realtimeSession s then
            (let s1 = append_fragment audio (s\<lparr>audioChunkCount := audioChunkCount s + 1\<rparr>) in
             case relay of
               None \<Rightarrow> s1\<lparr>relayed := relayed s1 @ [RelayAudio audio]\<rparr>
             | Some e \<Rightarrow>
                 (case v of Alternate \<Rightarrow> s1
                          | Backend \<Rightarrow> s1\<lparr>sent := sent s1 @ [ErrorMsg e]\<rparr>))
          else if ty = Some ''text'' \<and> realtimeSession s then
            (case relay of
               None \<Rightarrow> s\<lparr>relayed := relayed s @ [RelayText text]\<rparr>
             | Some e \<Rightarrow> s\<lparr>sent := sent s @ [ErrorMsg e]\<rparr>)
          else s)"

text \<open>
  \<^verbatim>\<open>ws.on('close')\<close>. The second server empties the buffer; backend/server.js calls
  \<^verbatim>\<open>processBatchAudio()\<close> on what remains and closes the session.
\<close>

definition on_close :: "server \<Rightarrow> conn \<Rightarrow> conn" where
  "on_close v s =
     (case v of
        Alternate \<Rightarrow> s\<lparr>audioBuffer := [], batchInterval := False\<rparr>
      | Backend \<Rightarrow>
          (let s1 = (if audioBuffer s \<noteq> [] then processBatchAudio Backend s else s) in
           s1\<lparr>batchInterval := False,
              sessionClosed := (if realtimeSession s1 then True else sessionClosed s1)\<rparr>))"

subsection \<open>Events\<close>

text \<open>
  Everything that can happen to a connection. The timer fires only while the interval is
  set; the client's messages and its close reach a handler only once the handlers are
  registered.
\<close>

datatype event =
    SessionOpen
  | ConnectResolved
  | ConnectFailed string
  | SessionMessage "string option"
  | SessionError string
  | SessionClose string
  | ClientMessage client_msg "string option"
  | TimerTick
  | BatchFinished nat api_result
  | ClientClose

fun step :: "server \<Rightarrow> conn \<Rightarrow> event \<Rightarrow> conn" where
  "step v s SessionOpen = onopen v s"
| "step v s ConnectResolved = connect_resolved s"
| "step v s (ConnectFailed message) = connect_failed v message s"
| "step v s (SessionMessage t) = onmessage t s"
| "step v s (SessionError message) = onerror message s"
| "step v s (SessionClose reason) = onclose reason s"
| "step v s (ClientMessage m relay) = (if listening s then on_message v m relay s else s)"
| "step v s TimerTick = (if batchInterval s then processBatchAudio v s else s)"
| "step v s (BatchFinished k r) = batch_finished v k r s"
| "step v s ClientClose = (if listening s then on_close v s else s)"

definition run :: "server \<Rightarrow> event list \<Rightarrow> conn \<Rightarrow> conn" where
  "run v es s = foldl (step v) s es"

section \<open>The client's reassembly\<close>

text \<open>
  The handler of \<^verbatim>\<open>corrected_transcription\<close> in GdmLiveAudioSecure.tsx.
  \<^verbatim>\<open>transcriptionChunks\<close> is a Map: its entries keep the order of first insertion, and
  setting a key it holds replaces the value in place.
\<close>

fun map_set :: "nat \<Rightarrow> string \<Rightarrow> (nat \<times> string) list \<Rightarrow> (nat \<times> string) list" where
  "map_set k v [] = [(k, v)]"
| "map_set k v ((k', v') # m) = (if k' = k then (k, v) # m else (k', v') # map_set k v m)"

text \<open>\<^verbatim>\<open>sortedChunks.join(' ')\<close>.\<close>

fun join_space :: "string list \<Rightarrow> string" where
  "join_space [] = []"
| "join_space [x] = x"
| "join_space (x # y # xs) = x @ '' '' @ join_space (y # xs)"

record client =
  transcriptionChunks :: "(nat \<times> string) list"
  correctedTranscription :: string

definition client_initial :: client where
  "client_initial = \<lparr>transcriptionChunks = [], correctedTranscription = []\<rparr>"

text \<open>
  A message with an empty text is passed over; otherwise the chunk is stored under its id
  and the transcription is rebuilt from the entries sorted by id (a stable sort).
\<close>

definition on_corrected :: "client \<Rightarrow> string \<times> nat \<Rightarrow> client" where
  "on_corrected c message =
     (case message of (text, chunk) \<Rightarrow>
        if text \<noteq> [] then
          (let chunks = map_set chunk text (transcriptionChunks c);
               sortedChunks = map snd (sort_key fst chunks)
           in \<lparr>transcriptionChunks = chunks, correctedTranscription = join_space sortedChunks\<rparr>)
        else c)"

definition receive :: "(string \<times> nat) list \<Rightarrow> client" where
  "receive messages = foldl on_corrected client_initial messages"


section \<open>Notions the properties are stated with\<close>

text \<open>
  Appends and drains of the batch window, interleaved in any order: the run collects what
  the drains took, in order, next to the connection.
\<close>

datatype acc_op = Append string | Drain

fun acc_step :: "string list \<times> conn \<Rightarrow> acc_op \<Rightarrow> string list \<times> conn" where
  "acc_step (drained, s) (Append fragment) = (drained, append_fragment fragment s)"
| "acc_step (drained, s) Drain =
     (case drain s of
        (None, s') \<Rightarrow> (drained, s')
      | (Some (currentBuffer, currentChunkId), s') \<Rightarrow> (drained @ currentBuffer, s'))"

definition acc_run :: "acc_op list \<Rightarrow> conn \<Rightarrow> string list \<times> conn" where
  "acc_run ops s = foldl acc_step ([], s) ops"

fun appended :: "acc_op list \<Rightarrow> string list" where
  "appended [] = []"
| "appended (Append fragment # ops) = fragment # appended ops"
| "appended (Drain # ops) = appended ops"

text \<open>
  A submission is in flight exactly while the flag is set, and there is at most one: the
  invariant of the connection.
\<close>

definition in_flight_inv :: "conn \<Rightarrow> bool" where
  "in_flight_inv s = (isProcessingBatch s = (pending s \<noteq> []) \<and> length (pending s) \<le> 1)"

text \<open>Timer ticks and audio messages, and the fragments a list of such events carries.\<close>

fun tick_or_audio :: "event \<Rightarrow> bool" where
  "tick_or_audio TimerTick = True"
| "tick_or_audio (ClientMessage (Json ty audio text) relay) = (ty = Some ''audio'')"
| "tick_or_audio _ = False"

fun fragments :: "event list \<Rightarrow> string list" where
  "fragments [] = []"
| "fragments (ClientMessage (Json ty audio text) relay # es) =
     (if ty = Some ''audio'' then audio # fragments es else fragments es)"
| "fragments (e # es) = fragments es"

fun is_corrected :: "out_msg \<Rightarrow> bool" where
  "is_corrected (Corrected text chunk) = True"
| "is_corrected _ = False"

text \<open>
  A text contains the sentinel in any letter case when some part of it, put in lower case,
  is the sentinel; it is blank when it consists of white space.
\<close>

definition contains_any_case :: "string \<Rightarrow> string \<Rightarrow> bool" where
  "contains_any_case text sentinel =
     (\<exists>before part after. text = before @ part @ after \<and> toLowerCase part = sentinel)"

definition blank :: "string \<Rightarrow> bool" where
  "blank text = list_all is_space text"

text \<open>Without a session handle nothing reaches the buffer, and nothing is ever submitted.\<close>

definition no_session :: "conn \<Rightarrow> bool" where
  "no_session s = (\<not> realtimeSession s \<and> audioBuffer s = [] \<and> pending s = []
     \<and> filter is_corrected (sent s) = [] \<and> transcriptionCounter s = 0)"

text \<open>
  Two states for examples: a connection with one request in flight and a fragment waiting,
  and a connection whose streaming session failed to open.
\<close>

definition in_flight_state :: conn where
  "in_flight_state = \<lparr>realtimeSession = True, audioBuffer = [''QUJD''], batchInterval = True,
        transcriptionCounter = 1, isProcessingBatch = True, audioChunkCount = 2,
        listening = True, sent = [Status ''Connected to Gemini Live''],
        pending = [\<lparr>chunkId = 0, wavData = ''UklGRg==''\<rparr>],
        relayed = [RelayAudio ''QUFB'', RelayAudio ''QUJD''], sessionClosed = False\<rparr>"

definition failed_open_state :: conn where
  "failed_open_state = \<lparr>realtimeSession = False, audioBuffer = [], batchInterval = False,
        transcriptionCounter = 0, isProcessingBatch = False, audioChunkCount = 0,
        listening = True, sent = [ErrorMsg ''Failed to connect to Gemini Live: timeout''],
        pending = [], relayed = [], sessionClosed = False\<rparr>"

text \<open>
  The entries the client's map holds after a list of corrected transcriptions with
  different chunk ids: those with a text, under their ids, in the order of arrival.
\<close>

definition entries :: "(string \<times> nat) list \<Rightarrow> (nat \<times> string) list" where
  "entries messages = map (\<lambda>(t, k). (k, t)) (filter (\<lambda>(t, k). t \<noteq> []) messages)"

text \<open>
  The corrected transcriptions among the messages a connection sent, as the client takes
  them (text and chunk id), and the invariant of the chunk ids: those sent and those of
  the pending requests are pairwise different and below the counter.
\<close>

fun corrected_of :: "out_msg list \<Rightarrow> (string \<times> nat) list" where
  "corrected_of [] = []"
| "corrected_of (Corrected t k # ms) = (t, k) # corrected_of ms"
| "corrected_of (m # ms) = corrected_of ms"

definition ids_inv :: "conn \<Rightarrow> bool" where
  "ids_inv s =
     (distinct (map snd (corrected_of (sent s)) @ map chunkId (pending s))
      \<and> list_all (\<lambda>i. i < transcriptionCounter s)
           (map snd (corrected_of (sent s)) @ map chunkId (pending s)))"

text \<open>
  A base64 text without padding: characters of the alphabet only, in groups of four. It
  is what a fragment of a multiple of three bytes encodes to.
\<close>

definition unpadded :: "string \<Rightarrow> bool" where
  "unpadded s = (list_all (\<lambda>c. unbase64 c \<noteq> None) s \<and> length s mod 4 = 0)"

section \<open>Verification: base64\<close>

lemma unbase64_b64char:
  assumes "n < 64"
  shows "unbase64 (b64char n) = Some n" and "b64char n \<noteq> CHR ''=''"
proof -
  have "\<forall>n\<in>set [0..<64]. unbase64 (b64char n) = Some n \<and> b64char n \<noteq> CHR ''=''"
    by code_simp
  then show "unbase64 (b64char n) = Some n" and "b64char n \<noteq> CHR ''=''"
    using assms by simp_all
qed

lemma sextets_b64char:
  "n < 64 \<Longrightarrow> sextets (b64char n # cs) = n # sextets cs"
  by (simp add: unbase64_b64char)

lemma sextets_pad: "sextets (CHR ''='' # cs) = []"
  by simp

lemma div_mod_pack:
  fixes x y k :: nat
  assumes "y < k"
  shows "(x * k + y) div k = x" "(x * k + y) mod k = y"
  using assms by simp_all

lemma group3:
  fixes a b c :: nat
  assumes "a < 256" "b < 256" "c < 256"
  shows "a div 4 < 64" "a mod 4 * 16 + b div 16 < 64" "b mod 16 * 4 + c div 64 < 64" "c mod 64 < 64"
    "a div 4 * 4 + (a mod 4 * 16 + b div 16) div 16 = a"
    "(a mod 4 * 16 + b div 16) mod 16 * 16 + (b mod 16 * 4 + c div 64) div 4 = b"
    "(b mod 16 * 4 + c div 64) mod 4 * 64 + c mod 64 = c"
proof -
  have a4: "a mod 4 < 4" and b16: "b mod 16 < 16" and c64: "c mod 64 < 64"
    by simp_all
  have bd: "b div 16 < 16" and cd: "c div 64 < 4" and ad: "a div 4 < 64"
    using assms by simp_all
  show "a div 4 < 64" by (rule ad)
  show "a mod 4 * 16 + b div 16 < 64" using a4 bd by linarith
  show "b mod 16 * 4 + c div 64 < 64" using b16 cd by linarith
  show "c mod 64 < 64" by (rule c64)
  show "a div 4 * 4 + (a mod 4 * 16 + b div 16) div 16 = a"
    by (simp add: div_mod_pack(1) [OF bd])
  show "(a mod 4 * 16 + b div 16) mod 16 * 16 + (b mod 16 * 4 + c div 64) div 4 = b"
    using bd by (simp add: div_mod_pack(1) [OF cd])
  show "(b mod 16 * 4 + c div 64) mod 4 * 64 + c mod 64 = c"
    using cd by simp
qed

lemma group2:
  fixes a b :: nat
  assumes "a < 256" "b < 256"
  shows "b mod 16 * 4 < 64"
    "(a mod 4 * 16 + b div 16) mod 16 * 16 + (b mod 16 * 4) div 4 = b"
proof -
  have b16: "b mod 16 < 16"
    by simp
  have bd: "b div 16 < 16"
    using assms by simp
  show "b mod 16 * 4 < 64" using b16 by linarith
  show "(a mod 4 * 16 + b div 16) mod 16 * 16 + (b mod 16 * 4) div 4 = b"
    using bd by simp
qed

lemma group1:
  fixes a :: nat
  assumes "a < 256"
  shows "a mod 4 * 16 < 64" "a div 4 * 4 + (a mod 4 * 16) div 16 = a"
proof -
  have a4: "a mod 4 < 4"
    by simp
  show "a mod 4 * 16 < 64" using a4 by linarith
  show "a div 4 * 4 + (a mod 4 * 16) div 16 = a"
    by simp
qed

lemma pack_encode_nat:
  "list_all (\<lambda>n. n < 256) ns \<Longrightarrow> pack (sextets (base64_encode_nat ns)) = map word_of_nat ns"
proof (induction ns rule: base64_encode_nat.induct)
  case (1 a b c r)
  then have abc: "a < 256" "b < 256" "c < 256" and r: "list_all (\<lambda>n. n < 256) r"
    by simp_all
  show ?case
    using "1.IH" [OF r] group3 [OF abc]
    by (simp add: sextets_b64char del: sextets.simps)
next
  case (2 a b)
  then have ab: "a < 256" "b < 256"
    by simp_all
  show ?case
    using group3 [OF ab ab(1)] group2 [OF ab]
    by (simp add: sextets_b64char del: sextets.simps) (simp add: sextets_b64char)
next
  case (3 a)
  then have a: "a < 256"
    by simp
  show ?case
    using group3 [OF a a a] group1 [OF a]
    by (simp add: sextets_b64char del: sextets.simps) (simp add: sextets_b64char)
next
  case 4
  then show ?case by simp
qed

lemma base64_roundtrip: "base64_decode (base64_encode bs) = bs"
proof -
  have "list_all (\<lambda>n. n < 256) (map unat bs)"
  proof -
    have "unat b < 256" for b :: byte
      using unsigned_less [of b, where ?'a = nat] by simp
    then show ?thesis
      by (simp add: list_all_iff)
  qed
  then have "pack (sextets (base64_encode_nat (map unat bs))) = map word_of_nat (map unat bs)"
    by (rule pack_encode_nat)
  then show ?thesis
    by (simp add: base64_decode_def base64_encode_def comp_def)
qed

section \<open>Verification: the WAV container\<close>

lemma write_at_mid:
  "length old = length new \<Longrightarrow> length pre = off \<Longrightarrow>
   write_at (pre @ old @ post) off new = pre @ new @ post"
proof (induction new arbitrary: pre old off)
  case Nil
  then show ?case by simp
next
  case (Cons b bs)
  then obtain a as where old: "old = a # as" and len: "length as = length bs"
    by (cases old) auto
  have "(pre @ old @ post)[off := b] = (pre @ [b]) @ as @ post"
    using Cons.prems(2) by (simp add: old list_update_append)
  moreover have "write_at ((pre @ [b]) @ as @ post) (Suc off) bs = (pre @ [b]) @ bs @ post"
    by (rule Cons.IH) (use len Cons.prems(2) in simp_all)
  ultimately show ?case by simp
qed

lemma write_at_zeros:
  assumes "length pre = off" "length new \<le> k"
  shows "write_at (pre @ replicate k 0) off new = (pre @ new) @ replicate (k - length new) 0"
proof -
  have "replicate k (0::byte) = replicate (length new) 0 @ replicate (k - length new) 0"
    using assms(2) by (simp flip: replicate_add)
  then show ?thesis
    using write_at_mid [of "replicate (length new) 0" new pre off "replicate (k - length new) 0"]
      assms(1) by simp
qed

lemma length_le_bytes [simp]: "length (le_bytes n v) = n"
  by (simp add: le_bytes_def)

lemma length_ascii [simp]: "length (ascii s) = length s"
  by (simp add: ascii_def)

lemma write_str_zeros:
  "length pre = off \<Longrightarrow> length s \<le> k \<Longrightarrow>
   write_str s off (pre @ replicate k 0) = Inr ((pre @ ascii s) @ replicate (k - length s) 0)"
  using write_at_zeros [of pre off "ascii s" k] by (simp add: write_str_def)

lemma writeUInt32LE_zeros:
  "v < 2 ^ 32 \<Longrightarrow> length pre = off \<Longrightarrow> 4 \<le> k \<Longrightarrow>
   writeUInt32LE v off (pre @ replicate k 0) = Inr ((pre @ le_bytes 4 v) @ replicate (k - 4) 0)"
  using write_at_zeros [of pre off "le_bytes 4 v" k] by (simp add: writeUInt32LE_def)

lemma writeUInt16LE_zeros:
  "v < 2 ^ 16 \<Longrightarrow> length pre = off \<Longrightarrow> 2 \<le> k \<Longrightarrow>
   writeUInt16LE v off (pre @ replicate k 0) = Inr ((pre @ le_bytes 2 v) @ replicate (k - 2) 0)"
  using write_at_zeros [of pre off "le_bytes 2 v" k] by (simp add: writeUInt16LE_def)


lemma and_then_Inr [simp]: "and_then (Inr x) f = f x"
  by (simp add: and_then_def)

lemma and_then_Inl [simp]: "and_then (Inl e) f = Inl e"
  by (simp add: and_then_def)

lemma wavHeader_bytes:
  assumes n: "36 + n < 2 ^ 32" and sr: "sampleRate * 2 < 2 ^ 32"
  shows "wavHeader n sampleRate = Inr
    (ascii ''RIFF'' @ le_bytes 4 (36 + n) @ ascii ''WAVE'' @ ascii ''fmt '' @ le_bytes 4 16
       @ le_bytes 2 1 @ le_bytes 2 1 @ le_bytes 4 sampleRate @ le_bytes 4 (sampleRate * 2)
       @ le_bytes 2 2 @ le_bytes 2 16 @ ascii ''data'' @ le_bytes 4 n)"
proof -
  have n': "n < 2 ^ 32" and sr': "sampleRate < 2 ^ 32"
    using n sr by simp_all
  define p1 where "p1 = ascii ''RIFF''"
  define p2 where "p2 = p1 @ le_bytes 4 (36 + n)"
  define p3 where "p3 = p2 @ ascii ''WAVE''"
  define p4 where "p4 = p3 @ ascii ''fmt ''"
  define p5 where "p5 = p4 @ le_bytes 4 16"
  define p6 where "p6 = p5 @ le_bytes 2 1"
  define p7 where "p7 = p6 @ le_bytes 2 1"
  define p8 where "p8 = p7 @ le_bytes 4 sampleRate"
  define p9 where "p9 = p8 @ le_bytes 4 (sampleRate * 2)"
  define p10 where "p10 = p9 @ le_bytes 2 2"
  define p11 where "p11 = p10 @ le_bytes 2 16"
  define p12 where "p12 = p11 @ ascii ''data''"
  define p13 where "p13 = p12 @ le_bytes 4 n"
  have l1: "length p1 = 4" by (simp add: p1_def)
  have l2: "length p2 = 8" by (simp add: p2_def l1)
  have l3: "length p3 = 12" by (simp add: p3_def l2)
  have l4: "length p4 = 16" by (simp add: p4_def l3)
  have l5: "length p5 = 20" by (simp add: p5_def l4)
  have l6: "length p6 = 22" by (simp add: p6_def l5)
  have l7: "length p7 = 24" by (simp add: p7_def l6)
  have l8: "length p8 = 28" by (simp add: p8_def l7)
  have l9: "length p9 = 32" by (simp add: p9_def l8)
  have l10: "length p10 = 34" by (simp add: p10_def l9)
  have l11: "length p11 = 36" by (simp add: p11_def l10)
  have l12: "length p12 = 40" by (simp add: p12_def l11)
  have s1: "write_str ''RIFF'' 0 (replicate 44 0) = Inr (p1 @ replicate 40 0)"
    using write_str_zeros [of "[]" 0 "''RIFF''" 44] by (simp add: p1_def)
  have s2: "writeUInt32LE (36 + n) 4 (p1 @ replicate 40 0) = Inr (p2 @ replicate 36 0)"
    using writeUInt32LE_zeros [of "36 + n" p1 4 40] n l1 by (simp add: p2_def)
  have s3: "write_str ''WAVE'' 8 (p2 @ replicate 36 0) = Inr (p3 @ replicate 32 0)"
    using write_str_zeros [of p2 8 "''WAVE''" 36] l2 by (simp add: p3_def)
  have s4: "write_str ''fmt '' 12 (p3 @ replicate 32 0) = Inr (p4 @ replicate 28 0)"
    using write_str_zeros [of p3 12 "''fmt ''" 32] l3 by (simp add: p4_def)
  have s5: "writeUInt32LE 16 16 (p4 @ replicate 28 0) = Inr (p5 @ replicate 24 0)"
    using writeUInt32LE_zeros [of 16 p4 16 28] l4 by (simp add: p5_def)
  have s6: "writeUInt16LE 1 20 (p5 @ replicate 24 0) = Inr (p6 @ replicate 22 0)"
    using writeUInt16LE_zeros [of 1 p5 20 24] l5 by (simp add: p6_def)
  have s7: "writeUInt16LE 1 22 (p6 @ replicate 22 0) = Inr (p7 @ replicate 20 0)"
    using writeUInt16LE_zeros [of 1 p6 22 22] l6 by (simp add: p7_def)
  have s8: "writeUInt32LE sampleRate 24 (p7 @ replicate 20 0) = Inr (p8 @ replicate 16 0)"
    using writeUInt32LE_zeros [of sampleRate p7 24 20] l7 sr' by (simp add: p8_def)
  have s9: "writeUInt32LE (sampleRate * 2) 28 (p8 @ replicate 16 0) = Inr (p9 @ replicate 12 0)"
    using writeUInt32LE_zeros [of "sampleRate * 2" p8 28 16] l8 sr by (simp add: p9_def)
  have s10: "writeUInt16LE 2 32 (p9 @ replicate 12 0) = Inr (p10 @ replicate 10 0)"
    using writeUInt16LE_zeros [of 2 p9 32 12] l9 by (simp add: p10_def)
  have s11: "writeUInt16LE 16 34 (p10 @ replicate 10 0) = Inr (p11 @ replicate 8 0)"
    using writeUInt16LE_zeros [of 16 p10 34 10] l10 by (simp add: p11_def)
  have s12: "write_str ''data'' 36 (p11 @ replicate 8 0) = Inr (p12 @ replicate 4 0)"
    using write_str_zeros [of p11 36 "''data''" 8] l11 by (simp add: p12_def)
  have s13: "writeUInt32LE n 40 (p12 @ replicate 4 0) = Inr p13"
    using writeUInt32LE_zeros [of n p12 40 4] l12 n' by (simp add: p13_def)
  have "wavHeader n sampleRate = Inr p13"
    unfolding wavHeader_def
    by (simp only: s1 s2 s3 s4 s5 s6 s7 s8 s9 s10 s11 s12 s13 and_then_Inr)
  then show ?thesis
    by (simp add: p13_def p12_def p11_def p10_def p9_def p8_def p7_def p6_def p5_def p4_def
        p3_def p2_def p1_def)
qed


lemma le_bytes_4: "le_bytes 4 v =
  [word_of_nat v, word_of_nat (v div 256), word_of_nat (v div 65536), word_of_nat (v div 16777216)]"
proof -
  have "[0..<4] = [0, 1, 2, 3]"
    by (simp add: upt_rec)
  then show ?thesis
    by (simp add: le_bytes_def)
qed

lemma le_bytes_2: "le_bytes 2 v = [word_of_nat v, word_of_nat (v div 256)]"
proof -
  have "[0..<2] = [0, 1]"
    by (simp add: upt_rec)
  then show ?thesis
    by (simp add: le_bytes_def)
qed

lemma unat_byte_of_nat: "unat (word_of_nat x :: byte) = x mod 256"
  by (simp add: unat_of_nat)

lemma le4_value:
  assumes "(v::nat) < 2 ^ 32"
  shows "v mod 256 + 256 * (v div 256 mod 256) + 65536 * (v div 65536 mod 256)
           + 16777216 * (v div 16777216 mod 256) = v"
proof -
  define a where "a = v div 256"
  define b where "b = a div 256"
  define c where "c = b div 256"
  have b': "v div 65536 = b"
    by (simp add: a_def b_def div_mult2_eq [symmetric])
  have c': "v div 16777216 = c"
    by (simp add: a_def b_def c_def div_mult2_eq [symmetric])
  have "c < 256"
    using assms unfolding c' [symmetric] by simp
  then have c: "c mod 256 = c"
    by simp
  have 1: "v = 256 * a + v mod 256"
    by (simp add: a_def)
  have 2: "a = 256 * b + a mod 256"
    by (simp add: b_def)
  have 3: "b = 256 * c + b mod 256"
    by (simp add: c_def)
  show ?thesis
    unfolding b' c' c a_def [symmetric]
    using 1 2 3 by linarith
qed

lemma le2_value:
  assumes "(v::nat) < 2 ^ 16"
  shows "v mod 256 + 256 * (v div 256 mod 256) = v"
proof -
  have "v div 256 < 256"
    using assms by simp
  then show ?thesis
    by simp
qed

lemma readUInt32LE_le_bytes:
  assumes "v < 2 ^ 32" "length pre = off"
  shows "readUInt32LE (pre @ le_bytes 4 v @ post) off = v"
proof -
  have "readUInt32LE (pre @ le_bytes 4 v @ post) off =
      v mod 256 + 256 * (v div 256 mod 256) + 65536 * (v div 65536 mod 256)
        + 16777216 * (v div 16777216 mod 256)"
    using assms(2)
    by (simp add: readUInt32LE_def nth_append le_bytes_4 unat_byte_of_nat)
  then show ?thesis
    by (rule trans [OF _ le4_value [OF assms(1)]])
qed

lemma readUInt16LE_le_bytes:
  assumes "v < 2 ^ 16" "length pre = off"
  shows "readUInt16LE (pre @ le_bytes 2 v @ post) off = v"
proof -
  have "readUInt16LE (pre @ le_bytes 2 v @ post) off = v mod 256 + 256 * (v div 256 mod 256)"
    using assms(2)
    by (simp add: readUInt16LE_def nth_append le_bytes_2 unat_byte_of_nat)
  then show ?thesis
    by (rule trans [OF _ le2_value [OF assms(1)]])
qed

lemma length_riff_header: "length (riff_header n sampleRate) = 44"
  by (simp add: riff_header_def)

lemma wavHeader_riff:
  "36 + n < 2 ^ 32 \<Longrightarrow> sampleRate * 2 < 2 ^ 32 \<Longrightarrow>
   wavHeader n sampleRate = Inr (riff_header n sampleRate)"
  by (simp add: wavHeader_bytes riff_header_def)

lemma riff_ChunkSize: "36 + n < 2 ^ 32 \<Longrightarrow> readUInt32LE (riff_header n sampleRate) 4 = 36 + n"
  unfolding riff_header_def
  using readUInt32LE_le_bytes [of "36 + n" "ascii ''RIFF''" 4] by simp

lemma riff_SampleRate:
  "sampleRate < 2 ^ 32 \<Longrightarrow> readUInt32LE (riff_header n sampleRate) 24 = sampleRate"
proof -
  assume sr: "sampleRate < 2 ^ 32"
  define pre where "pre = ascii ''RIFF'' @ le_bytes 4 (36 + n) @ ascii ''WAVE'' @ ascii ''fmt ''
       @ le_bytes 4 16 @ le_bytes 2 1 @ le_bytes 2 1"
  have l: "length pre = 24"
    by (simp add: pre_def)
  have "riff_header n sampleRate = pre @ le_bytes 4 sampleRate @ (le_bytes 4 (sampleRate * 2)
       @ le_bytes 2 2 @ le_bytes 2 16 @ ascii ''data'' @ le_bytes 4 n)"
    by (simp add: riff_header_def pre_def)
  then show ?thesis
    using readUInt32LE_le_bytes [OF sr l] by simp
qed


lemma riff_ByteRate:
  assumes "sampleRate * 2 < 2 ^ 32"
  shows "readUInt32LE (riff_header n sampleRate) 28 = sampleRate * 2"
proof -
  define pre where "pre = ascii ''RIFF'' @ le_bytes 4 (36 + n) @ ascii ''WAVE'' @ ascii ''fmt ''
       @ le_bytes 4 16 @ le_bytes 2 1 @ le_bytes 2 1 @ le_bytes 4 sampleRate"
  have l: "length pre = 28"
    by (simp add: pre_def)
  have "riff_header n sampleRate = pre @ le_bytes 4 (sampleRate * 2)
       @ (le_bytes 2 2 @ le_bytes 2 16 @ ascii ''data'' @ le_bytes 4 n)"
    by (simp add: riff_header_def pre_def)
  then show ?thesis
    using readUInt32LE_le_bytes [OF assms l] by simp
qed

lemma riff_BlockAlign: "readUInt16LE (riff_header n sampleRate) 32 = 2"
proof -
  define pre where "pre = ascii ''RIFF'' @ le_bytes 4 (36 + n) @ ascii ''WAVE'' @ ascii ''fmt ''
       @ le_bytes 4 16 @ le_bytes 2 1 @ le_bytes 2 1 @ le_bytes 4 sampleRate
       @ le_bytes 4 (sampleRate * 2)"
  have l: "length pre = 32"
    by (simp add: pre_def)
  have "riff_header n sampleRate = pre @ le_bytes 2 2
       @ (le_bytes 2 16 @ ascii ''data'' @ le_bytes 4 n)"
    by (simp add: riff_header_def pre_def)
  then show ?thesis
    using readUInt16LE_le_bytes [of 2 pre 32] l by simp
qed

lemma riff_BitsPerSample: "readUInt16LE (riff_header n sampleRate) 34 = 16"
proof -
  define pre where "pre = ascii ''RIFF'' @ le_bytes 4 (36 + n) @ ascii ''WAVE'' @ ascii ''fmt ''
       @ le_bytes 4 16 @ le_bytes 2 1 @ le_bytes 2 1 @ le_bytes 4 sampleRate
       @ le_bytes 4 (sampleRate * 2) @ le_bytes 2 2"
  have l: "length pre = 34"
    by (simp add: pre_def)
  have "riff_header n sampleRate = pre @ le_bytes 2 16 @ (ascii ''data'' @ le_bytes 4 n)"
    by (simp add: riff_header_def pre_def)
  then show ?thesis
    using readUInt16LE_le_bytes [of 16 pre 34] l by simp
qed

lemma riff_dataLength:
  assumes "n < 2 ^ 32"
  shows "readUInt32LE (riff_header n sampleRate) 40 = n"
proof -
  define pre where "pre = ascii ''RIFF'' @ le_bytes 4 (36 + n) @ ascii ''WAVE'' @ ascii ''fmt ''
       @ le_bytes 4 16 @ le_bytes 2 1 @ le_bytes 2 1 @ le_bytes 4 sampleRate
       @ le_bytes 4 (sampleRate * 2) @ le_bytes 2 2 @ le_bytes 2 16 @ ascii ''data''"
  have l: "length pre = 40"
    by (simp add: pre_def)
  have "riff_header n sampleRate = pre @ le_bytes 4 n @ []"
    by (simp add: riff_header_def pre_def)
  then show ?thesis
    using readUInt32LE_le_bytes [OF assms l, of "[]"] by simp
qed

lemma wav_manual_riff:
  assumes "36 + length pcm < 2 ^ 32" "sampleRate * 2 < 2 ^ 32"
  shows "wav_manual pcm sampleRate = Inr (riff_header (length pcm) sampleRate @ pcm)"
  by (simp add: wav_manual_def wavHeader_riff [OF assms])

lemma wav_wavefile_whole_samples:
  "wavBuffer Backend pcm sampleRate
     = Inr (riff_header (2 * (length pcm div 2)) sampleRate @ take (2 * (length pcm div 2)) pcm)"
  by (simp add: wavBuffer_def wav_wavefile_def wavefile_toBuffer_def int16_view_def)

lemma wav_wavefile_even:
  assumes "even (length pcm)"
  shows "wavBuffer Backend pcm sampleRate = Inr (riff_header (length pcm) sampleRate @ pcm)"
proof -
  have "2 * (length pcm div 2) = length pcm"
    using assms by simp
  then show ?thesis
    by (simp add: wav_wavefile_whole_samples)
qed

text \<open>
  Outside the inputs of the claim: a container of \<open>2\<^sup>3\<^sup>2 - 36\<close> bytes of data or more does not
  fit the size field, and the hand-written encoder throws. No string of the runtime
  decodes to that many bytes.
\<close>

lemma wav_manual_oversize:
  assumes "2 ^ 32 \<le> 36 + length pcm"
  shows "wavBuffer Alternate pcm sampleRate = Inl RangeError"
proof -
  have "\<not> 36 + length pcm < 2 ^ 32"
    using assms by simp
  then show ?thesis
    by (simp add: wavBuffer_def wav_manual_def wavHeader_def write_str_def writeUInt32LE_def)
qed

text \<open>
  Claim C4. For every input of 16-bit PCM, the empty input included, the encoder returns
  a header of 44 bytes followed by the input bytes, with ChunkSize \<open>36 + len\<close>, SampleRate
  16000, ByteRate 32000, BlockAlign 2, BitsPerSample 16 and the data length \<open>len\<close>, and
  \<^verbatim>\<open>createWAVFromPCM\<close> returns that container as base64 text. The input is any byte
  sequence whose container fits the 32-bit size fields (\<open>len + 36 < 2\<^sup>3\<^sup>2\<close>); the encoder of
  backend/server.js views it as 16-bit samples, so for that server the input is made of
  whole samples, as PCM of 16 bits is. The hand-written encoder of the second server
  takes any number of bytes.
\<close>

theorem wav_container:
  assumes "v = Backend \<longrightarrow> even (length pcm)" and "length pcm + 36 < 2 ^ 32"
  shows "wavBuffer v pcm 16000 = Inr (riff_header (length pcm) 16000 @ pcm)
    \<and> length (riff_header (length pcm) 16000) = 44
    \<and> readUInt32LE (riff_header (length pcm) 16000) 4 = 36 + length pcm
    \<and> readUInt32LE (riff_header (length pcm) 16000) 24 = 16000
    \<and> readUInt32LE (riff_header (length pcm) 16000) 28 = 32000
    \<and> readUInt16LE (riff_header (length pcm) 16000) 32 = 2
    \<and> readUInt16LE (riff_header (length pcm) 16000) 34 = 16
    \<and> readUInt32LE (riff_header (length pcm) 16000) 40 = length pcm
    \<and> createWAVFromPCM v (base64_encode pcm) 16000
        = Inr (base64_encode (riff_header (length pcm) 16000 @ pcm))"
proof -
  have n: "36 + length pcm < 2 ^ 32" "length pcm < 2 ^ 32"
    using assms(2) by simp_all
  have 1: "wavBuffer v pcm 16000 = Inr (riff_header (length pcm) 16000 @ pcm)"
  proof (cases v)
    case Alternate
    then show ?thesis
      using wav_manual_riff [OF n(1), of 16000] by (simp add: wavBuffer_def)
  next
    case Backend
    then show ?thesis
      using assms(1) wav_wavefile_even by simp
  qed
  have 2: "readUInt32LE (riff_header (length pcm) 16000) 24 = 16000"
    using riff_SampleRate [of 16000 "length pcm"] by simp
  have 3: "readUInt32LE (riff_header (length pcm) 16000) 28 = 32000"
    using riff_ByteRate [of 16000 "length pcm"] by simp
  have 4: "createWAVFromPCM v (base64_encode pcm) 16000
        = Inr (base64_encode (riff_header (length pcm) 16000 @ pcm))"
    using 1 by (simp add: createWAVFromPCM_def base64_roundtrip)
  show ?thesis
    using 1 2 3 4 length_riff_header riff_ChunkSize [OF n(1)] riff_BlockAlign
      riff_BitsPerSample riff_dataLength [OF n(2)]
    by simp
qed

lemma riff_header_8: "riff_header 8 16000 =
  [82, 73, 70, 70, 44, 0, 0, 0, 87, 65, 86, 69, 102, 109, 116, 32, 16, 0, 0, 0, 1, 0, 1, 0,
   128, 62, 0, 0, 0, 125, 0, 0, 2, 0, 16, 0, 100, 97, 116, 97, 8, 0, 0, 0]"
  by (simp add: riff_header_def le_bytes_4 le_bytes_2 ascii_def)

text \<open>
  The theorem at a known input of four samples, for both servers and with the header
  written out, and at the empty input, which gives the header alone with both length
  fields for no data.
\<close>

theorem wav_container_witness:
  "even (length [1, 0, 2, 0, 3, 0, 4, 0 :: byte])
   \<and> length [1, 0, 2, 0, 3, 0, 4, 0 :: byte] + 36 < (2::nat) ^ 32
   \<and> wavBuffer Alternate [1, 0, 2, 0, 3, 0, 4, 0] 16000 = Inr
     ([82, 73, 70, 70, 44, 0, 0, 0, 87, 65, 86, 69, 102, 109, 116, 32, 16, 0, 0, 0, 1, 0, 1, 0,
       128, 62, 0, 0, 0, 125, 0, 0, 2, 0, 16, 0, 100, 97, 116, 97, 8, 0, 0, 0]
      @ [1, 0, 2, 0, 3, 0, 4, 0])
   \<and> wavBuffer Backend [1, 0, 2, 0, 3, 0, 4, 0] 16000 = Inr
     ([82, 73, 70, 70, 44, 0, 0, 0, 87, 65, 86, 69, 102, 109, 116, 32, 16, 0, 0, 0, 1, 0, 1, 0,
       128, 62, 0, 0, 0, 125, 0, 0, 2, 0, 16, 0, 100, 97, 116, 97, 8, 0, 0, 0]
      @ [1, 0, 2, 0, 3, 0, 4, 0])
   \<and> even (length ([] :: byte list))
   \<and> length ([] :: byte list) + 36 < (2::nat) ^ 32
   \<and> wavBuffer Alternate [] 16000 = Inr (riff_header 0 16000)
   \<and> wavBuffer Backend [] 16000 = Inr (riff_header 0 16000)
   \<and> readUInt32LE (riff_header 0 16000) 4 = 36
   \<and> readUInt32LE (riff_header 0 16000) 40 = 0"
proof -
  have l: "length [1, 0, 2, 0, 3, 0, 4, 0 :: byte] = 8"
    by simp
  show ?thesis
    using wav_container [of Alternate "[1, 0, 2, 0, 3, 0, 4, 0]", unfolded l]
      wav_container [of Backend "[1, 0, 2, 0, 3, 0, 4, 0]", unfolded l]
      wav_container [of Alternate "[]"] wav_container [of Backend "[]"]
    by (simp add: riff_header_8)
qed

section \<open>Verification: one submission in flight\<close>

lemma drain_blocked:
  "isProcessingBatch s \<or> audioBuffer s = [] \<Longrightarrow> drain s = (None, s)"
  by (simp add: drain_def)

lemma drain_taken:
  "\<not> isProcessingBatch s \<Longrightarrow> audioBuffer s \<noteq> [] \<Longrightarrow>
   drain s = (Some (audioBuffer s, transcriptionCounter s),
              s\<lparr>isProcessingBatch := True, transcriptionCounter := transcriptionCounter s + 1,
                audioBuffer := []\<rparr>)"
  by (simp add: drain_def)

lemma processBatchAudio_blocked:
  "isProcessingBatch s \<or> audioBuffer s = [] \<Longrightarrow> processBatchAudio v s = s"
  by (simp add: processBatchAudio_def drain_blocked)

lemma processBatchAudio_inv:
  assumes "in_flight_inv s"
  shows "in_flight_inv (processBatchAudio v s)"
proof (cases "isProcessingBatch s \<or> audioBuffer s = []")
  case True
  then show ?thesis
    using assms by (simp add: processBatchAudio_blocked)
next
  case False
  then have "pending s = []"
    using assms by (simp add: in_flight_inv_def)
  with False show ?thesis
    by (simp add: processBatchAudio_def drain_def in_flight_inv_def split: sum.splits)
qed

lemma batch_finished_inv:
  assumes "in_flight_inv s"
  shows "in_flight_inv (batch_finished v k r s)"
proof (cases "k \<in> set (map chunkId (pending s))")
  case False
  then show ?thesis
    using assms by (simp add: batch_finished_def)
next
  case True
  then have "pending s \<noteq> []"
    by auto
  then obtain q where q: "pending s = [q]"
    using assms by (cases "pending s") (auto simp: in_flight_inv_def)
  with True show ?thesis
    by (simp add: batch_finished_def in_flight_inv_def)
qed

lemma on_message_pending:
  "pending (on_message v m relay s) = pending s
   \<and> isProcessingBatch (on_message v m relay s) = isProcessingBatch s"
  by (simp add: on_message_def append_fragment_def Let_def
      split: client_msg.splits option.splits server.splits)

lemma on_close_inv:
  assumes "in_flight_inv s"
  shows "in_flight_inv (on_close v s)"
proof (cases v)
  case Alternate
  then show ?thesis
    using assms by (simp add: on_close_def in_flight_inv_def)
next
  case Backend
  have "in_flight_inv (if audioBuffer s \<noteq> [] then processBatchAudio Backend s else s)"
    using assms processBatchAudio_inv by simp
  then show ?thesis
    using Backend by (simp add: on_close_def in_flight_inv_def Let_def)
qed

lemma step_inv:
  assumes "in_flight_inv s"
  shows "in_flight_inv (step v s e)"
proof (cases e)
  case (ClientMessage m relay)
  then show ?thesis
    using assms on_message_pending [of v m relay s] by (simp add: in_flight_inv_def)
next
  case TimerTick
  then show ?thesis
    using assms processBatchAudio_inv by simp
next
  case (BatchFinished k r)
  then show ?thesis
    using assms batch_finished_inv by simp
next
  case ClientClose
  then show ?thesis
    using assms on_close_inv by simp
qed (use assms in \<open>simp_all add: in_flight_inv_def onopen_def connect_resolved_def
    connect_failed_def onmessage_def onerror_def onclose_def split: option.splits\<close>)

lemma run_inv:
  "in_flight_inv s \<Longrightarrow> in_flight_inv (run v es s)"
  unfolding run_def
  by (induction es arbitrary: s) (simp_all add: step_inv)

lemma initial_inv: "in_flight_inv initial"
  by (simp add: in_flight_inv_def initial_def)

lemma run_append: "run v (es @ es') s = run v es' (run v es s)"
  by (simp add: run_def)

lemma run_Cons: "run v (e # es) s = run v es (step v s e)"
  by (simp add: run_def)

lemma run_Nil: "run v [] s = s"
  by (simp add: run_def)

text \<open>While a submission is in flight, ticks and audio messages only grow the buffer.\<close>

lemma in_flight_accumulates:
  assumes "isProcessingBatch s" "listening s" "realtimeSession s" "list_all tick_or_audio es"
  shows "isProcessingBatch (run v es s) \<and> listening (run v es s) \<and> realtimeSession (run v es s)
    \<and> pending (run v es s) = pending s
    \<and> transcriptionCounter (run v es s) = transcriptionCounter s
    \<and> audioBuffer (run v es s) = audioBuffer s @ fragments es"
  using assms
proof (induction es arbitrary: s)
  case Nil
  then show ?case by (simp add: run_Nil)
next
  case (Cons e es)
  have e: "tick_or_audio e" and es: "list_all tick_or_audio es"
    using Cons.prems(4) by simp_all
  have step: "isProcessingBatch (step v s e) \<and> listening (step v s e)
      \<and> realtimeSession (step v s e) \<and> pending (step v s e) = pending s
      \<and> transcriptionCounter (step v s e) = transcriptionCounter s
      \<and> audioBuffer (step v s e) = audioBuffer s @ fragments [e]"
  proof (cases e)
    case TimerTick
    then show ?thesis
      using Cons.prems(1-3) by (simp add: processBatchAudio_blocked)
  next
    case (ClientMessage m relay)
    then obtain ty audio t where m: "m = Json ty audio t" and ty: "ty = Some ''audio''"
      using e by (cases m) auto
    show ?thesis
      using Cons.prems(1-3)
      by (simp add: ClientMessage m ty on_message_def append_fragment_def Let_def
          split: option.splits server.splits)
  qed (use e in simp_all)
  have frag: "fragments (e # es) = fragments [e] @ fragments es"
  proof (cases e)
    case (ClientMessage m relay)
    then show ?thesis by (cases m) simp_all
  qed simp_all
  show ?case
    using Cons.IH [of "step v s e"] step es
    by (simp add: run_Cons frag)
qed


text \<open>
  Claim C1. In every state a connection reaches from its start, by any sequence of events,
  at most one batch request is pending, and one is pending exactly while the flag is set.
  A timer tick that finds the flag set changes nothing: no request is made and the buffer
  is kept. While a request is pending, ticks and audio messages leave it the only one and
  add the fragments to the buffer; when it completes, whatever the outcome, the flag is
  cleared, and the next drain takes the whole buffer, the fragments of that time included.
\<close>

theorem one_submission_in_flight:
  "length (pending (run v es initial)) \<le> 1
   \<and> isProcessingBatch (run v es initial) = (pending (run v es initial) \<noteq> [])
   \<and> (isProcessingBatch s \<longrightarrow> step v s TimerTick = s)
   \<and> (isProcessingBatch s \<and> listening s \<and> realtimeSession s \<and> list_all tick_or_audio ts \<longrightarrow>
        pending (run v ts s) = pending s
        \<and> audioBuffer (run v ts s) = audioBuffer s @ fragments ts)
   \<and> (k \<in> set (map chunkId (pending s)) \<longrightarrow>
        \<not> isProcessingBatch (step v s (BatchFinished k r)))
   \<and> (isProcessingBatch s \<and> listening s \<and> realtimeSession s \<and> list_all tick_or_audio ts
        \<and> k \<in> set (map chunkId (pending s)) \<and> audioBuffer s @ fragments ts \<noteq> [] \<longrightarrow>
        fst (drain (step v (run v ts s) (BatchFinished k r)))
          = Some (audioBuffer s @ fragments ts, transcriptionCounter s))"
proof -
  have reach: "in_flight_inv (run v es initial)"
    by (rule run_inv [OF initial_inv])
  have 1: "length (pending (run v es initial)) \<le> 1"
    and 2: "isProcessingBatch (run v es initial) = (pending (run v es initial) \<noteq> [])"
    using reach by (simp_all add: in_flight_inv_def)
  have 3: "step v s TimerTick = s" if "isProcessingBatch s"
    using that by (simp add: processBatchAudio_blocked)
  have 4: "pending (run v ts s) = pending s
      \<and> audioBuffer (run v ts s) = audioBuffer s @ fragments ts"
    if "isProcessingBatch s" "listening s" "realtimeSession s" "list_all tick_or_audio ts"
    using in_flight_accumulates [OF that] by simp
  have 5: "\<not> isProcessingBatch (step v s (BatchFinished k r))"
    if "k \<in> set (map chunkId (pending s))"
    using that by (simp add: batch_finished_def)
  have 6: "fst (drain (step v (run v ts s) (BatchFinished k r)))
        = Some (audioBuffer s @ fragments ts, transcriptionCounter s)"
    if a: "isProcessingBatch s" "listening s" "realtimeSession s" "list_all tick_or_audio ts"
      and k: "k \<in> set (map chunkId (pending s))" and b: "audioBuffer s @ fragments ts \<noteq> []"
  proof -
    define s' where "s' = run v ts s"
    have s': "pending s' = pending s" "transcriptionCounter s' = transcriptionCounter s"
      "audioBuffer s' = audioBuffer s @ fragments ts"
      using in_flight_accumulates [OF a, of v] by (simp_all add: s'_def)
    have "k \<in> set (map chunkId (pending s'))"
      using k s'(1) by simp
    then have f: "\<not> isProcessingBatch (batch_finished v k r s')"
      "audioBuffer (batch_finished v k r s') = audioBuffer s @ fragments ts"
      "transcriptionCounter (batch_finished v k r s') = transcriptionCounter s"
      using s' by (simp_all add: batch_finished_def)
    show ?thesis
      using f b drain_taken [of "batch_finished v k r s'"] by (simp flip: s'_def)
  qed
  show ?thesis
    using 1 2 3 4 5 6 by blast
qed

theorem one_submission_in_flight_witness:
  "isProcessingBatch in_flight_state \<and> listening in_flight_state \<and> realtimeSession in_flight_state
   \<and> list_all tick_or_audio [TimerTick, ClientMessage (Json (Some ''audio'') ''REVG'' []) None, TimerTick]
   \<and> 0 \<in> set (map chunkId (pending in_flight_state))
   \<and> step Alternate in_flight_state TimerTick = in_flight_state
   \<and> pending (run Alternate [TimerTick, ClientMessage (Json (Some ''audio'') ''REVG'' []) None, TimerTick] in_flight_state)
       = pending in_flight_state
   \<and> audioBuffer (run Alternate [TimerTick, ClientMessage (Json (Some ''audio'') ''REVG'' []) None, TimerTick] in_flight_state)
       = [''QUJD'', ''REVG'']
   \<and> \<not> isProcessingBatch (step Alternate in_flight_state (BatchFinished 0 Rejected))
   \<and> fst (drain (step Alternate
         (run Alternate [TimerTick, ClientMessage (Json (Some ''audio'') ''REVG'' []) None, TimerTick] in_flight_state)
         (BatchFinished 0 Rejected))) = Some ([''QUJD'', ''REVG''], 1)
   \<and> length (pending (run Alternate [ConnectResolved, SessionOpen, TimerTick] initial)) \<le> 1"
  using one_submission_in_flight [of Alternate "[ConnectResolved, SessionOpen, TimerTick]" in_flight_state
      "[TimerTick, ClientMessage (Json (Some ''audio'') ''REVG'' []) None, TimerTick]" 0 Rejected]
  by (simp add: in_flight_state_def)

section \<open>Verification: appends and drains\<close>

lemma acc_step_keeps:
  "acc_step (drained, s) op = (drained', s') \<Longrightarrow>
   drained' @ audioBuffer s' = drained @ audioBuffer s @ appended [op]"
  by (cases op) (auto simp: append_fragment_def drain_def split: if_splits)

lemma appended_append: "appended (ops @ ops') = appended ops @ appended ops'"
  by (induction ops rule: appended.induct) simp_all

lemma foldl_acc_step:
  "foldl acc_step (drained, s) ops = (drained', s') \<Longrightarrow>
   drained' @ audioBuffer s' = drained @ audioBuffer s @ appended ops"
proof (induction ops arbitrary: drained s)
  case Nil
  then show ?case by simp
next
  case (Cons op ops)
  obtain d1 s1 where 1: "acc_step (drained, s) op = (d1, s1)"
    by (cases "acc_step (drained, s) op")
  have "drained' @ audioBuffer s' = d1 @ audioBuffer s1 @ appended ops"
    using Cons.prems 1 by (intro Cons.IH) simp
  moreover have "appended (op # ops) = appended [op] @ appended ops"
    using appended_append [of "[op]" ops] by simp
  ultimately show ?case
    using acc_step_keeps [OF 1] by simp
qed

lemma foldl_appends:
  "foldl acc_step (drained, s) (map Append xs) = (drained, s\<lparr>audioBuffer := audioBuffer s @ xs\<rparr>)"
  by (induction xs arbitrary: s) (simp_all add: append_fragment_def)

text \<open>
  Claim C2. Appends and drains in any order lose and duplicate nothing: what the drains
  took, followed by what the buffer holds, is what the buffer held at first followed by the
  appended fragments, in their order. For N appends around one drain: the drain takes
  the buffer with the fragments appended before it, in arrival order, and the fragments
  appended after it are the buffer; if the guard stops the drain (the flag is set or
  nothing has arrived), nothing is taken and all fragments are in the buffer. The append
  is what the message handler does to the buffer on an audio message with a session.
\<close>

theorem append_drain_partition:
  "fst (acc_run ops s) @ audioBuffer (snd (acc_run ops s)) = audioBuffer s @ appended ops
   \<and> mset (fst (acc_run ops s)) + mset (audioBuffer (snd (acc_run ops s)))
       = mset (audioBuffer s) + mset (appended ops)
   \<and> acc_run (map Append xs @ [Drain] @ map Append ys) s =
       (if isProcessingBatch s \<or> audioBuffer s @ xs = []
        then ([], s\<lparr>audioBuffer := audioBuffer s @ xs @ ys\<rparr>)
        else (audioBuffer s @ xs,
              s\<lparr>isProcessingBatch := True, transcriptionCounter := transcriptionCounter s + 1,
                audioBuffer := ys\<rparr>))
   \<and> audioBuffer (on_message v (Json (Some ''audio'') fragment t) relay s) =
       (if realtimeSession s then audioBuffer (append_fragment fragment s) else audioBuffer s)"
proof -
  have 4: "audioBuffer (on_message v (Json (Some ''audio'') fragment t) relay s) =
       (if realtimeSession s then audioBuffer (append_fragment fragment s) else audioBuffer s)"
    by (simp add: on_message_def append_fragment_def Let_def split: option.splits server.splits)
  obtain d s' where r: "acc_run ops s = (d, s')"
    by (cases "acc_run ops s")
  have 1: "d @ audioBuffer s' = audioBuffer s @ appended ops"
    using foldl_acc_step [of "[]" s ops d s'] r by (simp add: acc_run_def)
  have "mset (d @ audioBuffer s') = mset (audioBuffer s @ appended ops)"
    by (simp only: 1)
  then have 2: "mset d + mset (audioBuffer s') = mset (audioBuffer s) + mset (appended ops)"
    by simp
  have 3: "acc_run (map Append xs @ [Drain] @ map Append ys) s =
       (if isProcessingBatch s \<or> audioBuffer s @ xs = []
        then ([], s\<lparr>audioBuffer := audioBuffer s @ xs @ ys\<rparr>)
        else (audioBuffer s @ xs,
              s\<lparr>isProcessingBatch := True, transcriptionCounter := transcriptionCounter s + 1,
                audioBuffer := ys\<rparr>))"
    by (simp add: acc_run_def foldl_appends drain_def)
  show ?thesis
    using 1 2 3 4 r by simp
qed

section \<open>Verification: closing the connection\<close>

lemma createWAVFromPCM_Backend:
  "createWAVFromPCM Backend b sampleRate
     = Inr (base64_encode (wavefile_toBuffer (int16_view (base64_decode b)) sampleRate))"
  by (simp add: createWAVFromPCM_def wavBuffer_def wav_wavefile_def)

text \<open>
  Claim C3, as the code has it. On close the second server submits nothing, empties the
  buffer and clears the timer. backend/server.js passes the remaining window to
  \<^verbatim>\<open>processBatchAudio\<close>: unless a submission is in flight, a non-empty window is drained and
  submitted under the next chunk id.
\<close>

theorem close_and_partial_window:
  "pending (on_close Alternate s) = pending s
   \<and> sent (on_close Alternate s) = sent s
   \<and> audioBuffer (on_close Alternate s) = []
   \<and> \<not> batchInterval (on_close Alternate s)
   \<and> pending (on_close Backend s) =
       (if audioBuffer s = [] \<or> isProcessingBatch s then pending s
        else pending s @
          [\<lparr>chunkId = transcriptionCounter s,
            wavData = base64_encode
              (wavefile_toBuffer (int16_view (pcmData Backend (audioBuffer s))) 16000)\<rparr>])
   \<and> \<not> batchInterval (on_close Backend s)"
  by (simp add: on_close_def processBatchAudio_def drain_def createWAVFromPCM_Backend
      pcmData_def Let_def)

text \<open>
  C3 as stated fails for backend/server.js: a client that closes after one fragment has
  that fragment submitted, as chunk 0.
\<close>

theorem backend_close_submits:
  "pending (run Backend [ConnectResolved, SessionOpen,
      ClientMessage (Json (Some ''audio'') ''QUJDRA=='' []) None, ClientClose] initial)
   = [\<lparr>chunkId = 0,
       wavData = ''UklGRigAAABXQVZFZm10IBAAAAABAAEAgD4AAAB9AAACABAAZGF0YQQAAABBQkNE''\<rparr>]"
  by code_simp

section \<open>Verification: the batch reply\<close>

lemma includes_str_iff: "includes_str s sub \<longleftrightarrow> (\<exists>pre post. s = pre @ sub @ post)"
proof (induction s)
  case Nil
  then show ?case by auto
next
  case (Cons c cs)
  have pre: "take (length sub) (c # cs) = sub \<longleftrightarrow> (\<exists>post. c # cs = sub @ post)"
  proof
    assume "take (length sub) (c # cs) = sub"
    then have "c # cs = sub @ drop (length sub) (c # cs)"
      by (metis append_take_drop_id)
    then show "\<exists>post. c # cs = sub @ post" ..
  next
    assume "\<exists>post. c # cs = sub @ post"
    then show "take (length sub) (c # cs) = sub" by auto
  qed
  have "(\<exists>pre post. c # cs = pre @ sub @ post)
      \<longleftrightarrow> (\<exists>post. c # cs = sub @ post) \<or> (\<exists>pre post. cs = pre @ sub @ post)"
  proof
    assume "\<exists>pre post. c # cs = pre @ sub @ post"
    then obtain p q where pq: "c # cs = p @ sub @ q" by blast
    show "(\<exists>post. c # cs = sub @ post) \<or> (\<exists>pre post. cs = pre @ sub @ post)"
    proof (cases p)
      case Nil
      then show ?thesis using pq by auto
    next
      case (Cons a p')
      then have "cs = p' @ sub @ q" using pq by simp
      then show ?thesis by blast
    qed
  next
    assume "(\<exists>post. c # cs = sub @ post) \<or> (\<exists>pre post. cs = pre @ sub @ post)"
    then show "\<exists>pre post. c # cs = pre @ sub @ post"
    proof
      assume "\<exists>post. c # cs = sub @ post"
      then obtain q where "c # cs = [] @ sub @ q" by auto
      then show ?thesis by blast
    next
      assume "\<exists>pre post. cs = pre @ sub @ post"
      then obtain p q where "cs = p @ sub @ q" by blast
      then have "c # cs = (c # p) @ sub @ q" by simp
      then show ?thesis by blast
    qed
  qed
  then show ?case
    using Cons.IH pre by simp
qed

lemma contains_any_case_code:
  "contains_any_case t sentinel \<longleftrightarrow> includes_str (toLowerCase t) sentinel"
proof
  assume "contains_any_case t sentinel"
  then obtain a b c where "t = a @ b @ c" "toLowerCase b = sentinel"
    unfolding contains_any_case_def by blast
  then have "toLowerCase t = toLowerCase a @ sentinel @ toLowerCase c"
    by (simp add: toLowerCase_def)
  then show "includes_str (toLowerCase t) sentinel"
    unfolding includes_str_iff by blast
next
  assume "includes_str (toLowerCase t) sentinel"
  then obtain p q where m: "map lower_char t = p @ sentinel @ q"
    unfolding includes_str_iff toLowerCase_def by blast
  define b where "b = take (length sentinel) (drop (length p) t)"
  have "map lower_char b = take (length sentinel) (drop (length p) (map lower_char t))"
    by (simp add: b_def take_map drop_map)
  also have "\<dots> = sentinel"
    by (simp add: m)
  finally have 3: "map lower_char b = sentinel" .
  have "t = take (length p) t @ b @ drop (length sentinel) (drop (length p) t)"
    unfolding b_def by (simp only: append_take_drop_id)
  then show "contains_any_case t sentinel"
    unfolding contains_any_case_def toLowerCase_def using 3 by blast
qed

declare contains_any_case_code [code]

lemma dropWhile_all: "(\<forall>x\<in>set (dropWhile P xs). P x) \<longleftrightarrow> (\<forall>x\<in>set xs. P x)"
proof
  assume a: "\<forall>x\<in>set (dropWhile P xs). P x"
  have "dropWhile P xs = []"
  proof (rule ccontr)
    assume n: "dropWhile P xs \<noteq> []"
    then have "\<not> P (hd (dropWhile P xs))"
      by (rule hd_dropWhile)
    moreover have "hd (dropWhile P xs) \<in> set (dropWhile P xs)"
      using n by simp
    ultimately show False using a by blast
  qed
  then show "\<forall>x\<in>set xs. P x"
    by (simp add: dropWhile_eq_Nil_conv)
next
  assume "\<forall>x\<in>set xs. P x"
  then show "\<forall>x\<in>set (dropWhile P xs). P x"
    using set_dropWhileD by fastforce
qed

lemma trim_empty: "trim t = [] \<longleftrightarrow> blank t"
proof -
  have "trim t = [] \<longleftrightarrow> (\<forall>x\<in>set (rev (dropWhile is_space t)). is_space x)"
    by (simp add: trim_def dropWhile_eq_Nil_conv)
  also have "\<dots> \<longleftrightarrow> (\<forall>x\<in>set t. is_space x)"
    using dropWhile_all [of is_space t] by simp
  finally show ?thesis
    by (simp add: blank_def list_all_iff)
qed

text \<open>
  Claim C5, as the code has it. In the second server a reply whose text contains the
  sentinel in any letter case sends nothing, a text that is empty or all white space (the
  no-break space included) sends nothing, and any other text sends one corrected
  transcription with the trimmed text and the chunk id. A
  rejected request and a reply without text send nothing in either server.
  backend/server.js has no sentinel: every non-empty text sends one corrected
  transcription with the trimmed text. The messages follow what was sent before, and only
  a pending request completes.
\<close>

theorem sentinel_filtering:
  "corrected_messages Alternate k (Replied (Some t)) =
     (if contains_any_case t ''unclear audio'' \<or> blank t then [] else [Corrected (trim t) k])
   \<and> corrected_messages Backend k (Replied (Some t)) =
     (if t = [] then [] else [Corrected (trim t) k])
   \<and> corrected_messages v k Rejected = []
   \<and> corrected_messages v k (Replied None) = []
   \<and> sent (batch_finished v k r s) =
     (if k \<in> set (map chunkId (pending s)) then sent s @ corrected_messages v k r else sent s)"
proof -
  have e: "t = [] \<Longrightarrow> trim t = []"
    by (simp add: trim_def)
  have 1: "corrected_messages Alternate k (Replied (Some t)) =
     (if contains_any_case t ''unclear audio'' \<or> blank t then [] else [Corrected (trim t) k])"
    using e by (auto simp: corrected_messages_def contains_any_case_code trim_empty [symmetric])
  have 2: "corrected_messages Backend k (Replied (Some t)) =
     (if t = [] then [] else [Corrected (trim t) k])"
    by (simp add: corrected_messages_def)
  have 3: "corrected_messages v k Rejected = []" "corrected_messages v k (Replied None) = []"
    by (simp_all add: corrected_messages_def)
  have 4: "sent (batch_finished v k r s) =
     (if k \<in> set (map chunkId (pending s)) then sent s @ corrected_messages v k r else sent s)"
    by (simp add: batch_finished_def)
  show ?thesis
    using 1 2 3 4 by simp
qed

text \<open>
  C5 as stated fails for backend/server.js: the sentinel is sent on as a corrected
  transcription, and a text of white space is sent as the empty text.
\<close>

theorem backend_sends_sentinel:
  "corrected_messages Backend 0 (Replied (Some ''Unclear audio'')) = [Corrected ''Unclear audio'' 0]
   \<and> corrected_messages Backend 1 (Replied (Some ''  '')) = [Corrected [] 1]"
  by (simp add: corrected_messages_def trim_def is_space_def)

lemma sentinel_examples:
  "corrected_messages Alternate 0 (Replied (Some ''Unclear AUDIO.'')) = []
   \<and> corrected_messages Alternate 1 (Replied (Some ''  '')) = []
   \<and> corrected_messages Alternate 2 (Replied (Some '' Hello world '')) = [Corrected ''Hello world'' 2]
   \<and> corrected_messages Alternate 3 (Replied (Some [CHR 0xA0])) = []
   \<and> corrected_messages Backend 4 (Replied (Some (CHR 0xA0 # ''hi'' @ [CHR 0xA0])))
       = [Corrected ''hi'' 4]"
  by code_simp

section \<open>Verification: messages and the streaming session\<close>

lemma no_session_step:
  assumes "no_session s" "e \<noteq> ConnectResolved"
  shows "no_session (step v s e)"
proof (cases e)
  case ConnectResolved
  then show ?thesis using assms(2) by simp
next
  case (ClientMessage m relay)
  then show ?thesis
    using assms(1)
    by (cases m) (simp_all add: no_session_def on_message_def)
next
  case TimerTick
  then show ?thesis
    using assms(1) by (simp add: no_session_def processBatchAudio_blocked)
next
  case (BatchFinished k r)
  then show ?thesis
    using assms(1) by (simp add: no_session_def batch_finished_def)
next
  case ClientClose
  then show ?thesis
    using assms(1) by (cases v) (simp_all add: no_session_def on_close_def)
qed (use assms(1) in \<open>simp_all add: no_session_def onopen_def connect_failed_def
    onmessage_def onerror_def onclose_def split: option.splits\<close>)

lemma no_session_run:
  "no_session s \<Longrightarrow> ConnectResolved \<notin> set es \<Longrightarrow> no_session (run v es s)"
proof (induction es arbitrary: s)
  case Nil
  then show ?case by (simp add: run_Nil)
next
  case (Cons e es)
  have "e \<noteq> ConnectResolved" and es: "ConnectResolved \<notin> set es"
    using Cons.prems(2) by auto
  then have "no_session (step v s e)"
    using no_session_step [OF Cons.prems(1)] by simp
  then show ?case
    using Cons.IH es by (simp add: run_Cons)
qed

lemma no_session_initial: "no_session initial"
  by (simp add: no_session_def initial_def)

text \<open>
  Claim C8, as the code has it. When opening the streaming session fails, the error is
  sent to the client and the handlers of the client connection are registered, so the
  connection stays; the failure starts no timer. The session handle is never assigned, so
  in every state reached without the open succeeding the buffer is empty, no batch
  request is pending, the counter is 0 and no corrected transcription was sent: audio
  messages are dropped and the batch path does nothing.
\<close>

theorem open_failure_stops_batches:
  "sent (step v s (ConnectFailed message)) = sent s @ [ErrorMsg (connect_error_text v @ message)]
   \<and> listening (step v s (ConnectFailed message))
   \<and> batchInterval (step v s (ConnectFailed message)) = batchInterval s
   \<and> (ConnectResolved \<notin> set es \<longrightarrow>
        \<not> realtimeSession (run v es initial)
        \<and> audioBuffer (run v es initial) = []
        \<and> pending (run v es initial) = []
        \<and> transcriptionCounter (run v es initial) = 0
        \<and> filter is_corrected (sent (run v es initial)) = [])"
proof -
  have 1: "sent (step v s (ConnectFailed message))
        = sent s @ [ErrorMsg (connect_error_text v @ message)]"
    "listening (step v s (ConnectFailed message))"
    "batchInterval (step v s (ConnectFailed message)) = batchInterval s"
    by (simp_all add: connect_failed_def)
  have 2: "no_session (run v es initial)" if "ConnectResolved \<notin> set es"
    using no_session_run [OF no_session_initial that] .
  show ?thesis
    using 1 2 unfolding no_session_def by blast
qed

theorem open_failure_stops_batches_witness:
  "ConnectResolved \<notin> set [SessionOpen, ConnectFailed ''timeout'',
       ClientMessage (Json (Some ''audio'') ''QUJDRA=='' []) None, TimerTick]
   \<and> audioBuffer (run Alternate [SessionOpen, ConnectFailed ''timeout'',
       ClientMessage (Json (Some ''audio'') ''QUJDRA=='' []) None, TimerTick] initial) = []
   \<and> pending (run Alternate [SessionOpen, ConnectFailed ''timeout'',
       ClientMessage (Json (Some ''audio'') ''QUJDRA=='' []) None, TimerTick] initial) = []
   \<and> sent (step Alternate initial (ConnectFailed ''timeout''))
       = [ErrorMsg ''Failed to connect to Gemini Live: timeout'']"
  using open_failure_stops_batches [of Alternate initial "''timeout''"
      "[SessionOpen, ConnectFailed ''timeout'',
        ClientMessage (Json (Some ''audio'') ''QUJDRA=='' []) None, TimerTick]"]
  by (simp add: initial_def connect_error_text_def)

text \<open>
  C8 as stated fails: after a failed open an audio message is not accumulated and no
  timer runs.
\<close>

theorem open_failure_no_accumulation:
  "audioBuffer (run Alternate [ConnectFailed ''timeout'',
       ClientMessage (Json (Some ''audio'') ''QUJDRA=='' []) None] initial) = []
   \<and> \<not> batchInterval (run Alternate [ConnectFailed ''timeout'',
       ClientMessage (Json (Some ''audio'') ''QUJDRA=='' []) None] initial)
   \<and> audioBuffer (run Backend [ConnectFailed ''timeout'',
       ClientMessage (Json (Some ''audio'') ''QUJDRA=='' []) None] initial) = []
   \<and> \<not> batchInterval (run Backend [ConnectFailed ''timeout'',
       ClientMessage (Json (Some ''audio'') ''QUJDRA=='' []) None] initial)"
  by (simp add: run_def initial_def connect_failed_def on_message_def)

text \<open>
  Claim C9, as the code has it. A message that does not parse is answered with an error
  message and changes nothing else of the connection; so is the message \<^verbatim>\<open>null\<close>, which
  parses, but reading its type throws into the same \<^verbatim>\<open>catch\<close>. A message that parses to
  any other value whose type is neither \<^verbatim>\<open>audio\<close> nor \<^verbatim>\<open>text\<close> changes nothing at all:
  nothing is sent, and buffer, counter, timer and session are as before.
\<close>

theorem malformed_and_unknown_messages:
  "on_message v (Unparseable e) relay s = s\<lparr>sent := sent s @ [ErrorMsg e]\<rparr>
   \<and> on_message v (ParsedNull e) relay s = s\<lparr>sent := sent s @ [ErrorMsg e]\<rparr>
   \<and> (ty \<noteq> Some ''audio'' \<and> ty \<noteq> Some ''text'' \<longrightarrow> on_message v (Json ty audio t) relay s = s)"
  by (simp add: on_message_def)

theorem malformed_and_unknown_messages_witness:
  "Some ''ping'' \<noteq> Some ''audio'' \<and> Some ''ping'' \<noteq> Some ''text''
   \<and> on_message Alternate (Json (Some ''ping'') [] []) None in_flight_state = in_flight_state
   \<and> on_message Alternate (Json None [] []) None in_flight_state = in_flight_state
   \<and> on_message Backend (Unparseable ''Unexpected token'') None in_flight_state
       = in_flight_state\<lparr>sent := sent in_flight_state @ [ErrorMsg ''Unexpected token'']\<rparr>"
  using malformed_and_unknown_messages [of Alternate "''x''" None in_flight_state "Some ''ping''" "[]" "[]"]
    malformed_and_unknown_messages [of Alternate "''x''" None in_flight_state None "[]" "[]"]
    malformed_and_unknown_messages [of Backend "''Unexpected token''" None in_flight_state None "[]" "[]"]
  by simp

text \<open>
  C9 as stated fails at the message \<^verbatim>\<open>null\<close>: it parses, it has no known type, and it is
  answered with an error message instead of being ignored.
\<close>

theorem null_message_is_answered:
  "sent (on_message Alternate (ParsedNull ''Cannot read properties of null'') None initial)
     = [ErrorMsg ''Cannot read properties of null'']
   \<and> sent (on_message Backend (ParsedNull ''Cannot read properties of null'') None initial)
     = [ErrorMsg ''Cannot read properties of null'']"
  by (simp add: on_message_def initial_def)

text \<open>
  Claim C10. An audio message that arrives while the session handle is not assigned
  changes nothing: it is not appended, not relayed, nothing is sent, and every variable of
  the connection is as before. While the open is still awaited no handler is registered,
  and a message of any kind changes nothing.
\<close>

theorem audio_without_session_dropped:
  "(\<not> realtimeSession s \<longrightarrow>
      on_message v (Json (Some ''audio'') audio t) relay s = s
      \<and> step v s (ClientMessage (Json (Some ''audio'') audio t) relay) = s)
   \<and> (\<not> listening s \<longrightarrow> step v s (ClientMessage m relay) = s)"
  by (simp add: on_message_def)

theorem audio_without_session_dropped_witness:
  "\<not> realtimeSession failed_open_state \<and> \<not> listening initial
   \<and> on_message Alternate (Json (Some ''audio'') ''QUJDRA=='' []) None failed_open_state = failed_open_state
   \<and> step Backend failed_open_state (ClientMessage (Json (Some ''audio'') ''QUJDRA=='' []) None) = failed_open_state
   \<and> step Alternate initial (ClientMessage (Json (Some ''audio'') ''QUJDRA=='' []) None) = initial"
  using audio_without_session_dropped [of failed_open_state Alternate "''QUJDRA==''" "[]" None]
    audio_without_session_dropped [of failed_open_state Backend "''QUJDRA==''" "[]" None]
    audio_without_session_dropped [of initial Alternate "[]" "[]" None
      "Json (Some ''audio'') ''QUJDRA=='' []"]
  by (simp add: failed_open_state_def initial_def)


section \<open>Verification: sequence numbers and the client's reassembly\<close>

lemma map_set_fresh: "k \<notin> fst ` set m \<Longrightarrow> map_set k v m = m @ [(k, v)]"
  by (induction m) auto

lemma entries_keys: "fst ` set (entries ms) \<subseteq> snd ` set ms"
  by (force simp: entries_def)

lemma entries_Cons:
  "entries ((t, k) # ms) = (if t \<noteq> [] then (k, t) # entries ms else entries ms)"
  by (simp add: entries_def)

lemma foldl_on_corrected:
  assumes "distinct (map fst (transcriptionChunks c) @ map snd ms)"
    and "correctedTranscription c = join_space (map snd (sort_key fst (transcriptionChunks c)))"
  shows "transcriptionChunks (foldl on_corrected c ms) = transcriptionChunks c @ entries ms
    \<and> correctedTranscription (foldl on_corrected c ms)
        = join_space (map snd (sort_key fst (transcriptionChunks c @ entries ms)))"
  using assms
proof (induction ms arbitrary: c)
  case Nil
  then show ?case by (simp add: entries_def)
next
  case (Cons m ms)
  obtain t k where m: "m = (t, k)"
    by (cases m)
  show ?case
  proof (cases "t = []")
    case True
    then have "on_corrected c m = c"
      by (simp add: on_corrected_def m)
    moreover have "distinct (map fst (transcriptionChunks c) @ map snd ms)"
      using Cons.prems(1) by simp
    ultimately show ?thesis
      using Cons.IH [of c] Cons.prems(2) True by (simp add: m entries_Cons)
  next
    case False
    have fresh: "k \<notin> fst ` set (transcriptionChunks c)"
      using Cons.prems(1) by (auto simp: m)
    define c' where "c' = on_corrected c (t, k)"
    have ch: "transcriptionChunks c' = transcriptionChunks c @ [(k, t)]"
      using False by (simp add: c'_def on_corrected_def m map_set_fresh [OF fresh] Let_def)
    have tx: "correctedTranscription c' = join_space (map snd (sort_key fst (transcriptionChunks c')))"
      using False by (simp add: c'_def on_corrected_def m Let_def)
    have d: "distinct (map fst (transcriptionChunks c') @ map snd ms)"
      using Cons.prems(1) by (auto simp: ch m)
    show ?thesis
      using Cons.IH [OF d tx] False by (simp add: c'_def [symmetric] ch m entries_Cons)
  qed
qed

lemma receive_entries:
  assumes "distinct (map snd ms)"
  shows "transcriptionChunks (receive ms) = entries ms"
    and "correctedTranscription (receive ms) = join_space (map snd (sort_key fst (entries ms)))"
  using foldl_on_corrected [of client_initial ms] assms
  by (simp_all add: receive_def client_initial_def)

lemma filter_key_distinct:
  "distinct (map f zs) \<Longrightarrow> k \<in> set zs \<Longrightarrow> filter (\<lambda>x. f k = f x) zs = [k]"
proof (induction zs)
  case Nil
  then show ?case by simp
next
  case (Cons z zs)
  show ?case
  proof (cases "k = z")
    case True
    have "filter (\<lambda>x. f z = f x) zs = []"
      using Cons.prems(1) by (auto simp: filter_empty_conv)
    then show ?thesis using True by simp
  next
    case False
    then have "k \<in> set zs" using Cons.prems(2) by simp
    moreover have "f z \<notin> f ` set zs"
      using Cons.prems(1) by simp
    ultimately have "f k \<noteq> f z"
      by (metis imageI)
    then show ?thesis
      using Cons.IH Cons.prems(1) \<open>k \<in> set zs\<close> by simp
  qed
qed

lemma sort_key_perm_distinct:
  assumes "mset ys = mset xs" "distinct (map f xs)"
  shows "sort_key f ys = sort_key f xs"
proof -
  have "mset (map f ys) = mset (map f xs)"
    using assms(1) by simp
  then have dy: "distinct (map f ys)"
    using assms(2) by (metis mset_eq_imp_distinct_iff)
  define zs where "zs = sort_key f xs"
  have 1: "mset zs = mset ys"
    using assms(1) by (simp add: zs_def)
  have 2: "sorted (map f zs)"
    by (simp add: zs_def)
  have 3: "filter (\<lambda>x. f k = f x) zs = filter (\<lambda>x. f k = f x) ys" if "k \<in> set zs" for k
  proof -
    have "mset (map f zs) = mset (map f ys)"
      using 1 by simp
    then have dz: "distinct (map f zs)"
      using dy by (metis mset_eq_imp_distinct_iff)
    have "k \<in> set ys"
      using that 1 by (metis mset_eq_setD)
    then show ?thesis
      using filter_key_distinct [OF dz that] filter_key_distinct [OF dy] by simp
  qed
  show ?thesis
    using properties_for_sort_key [OF 1 3 2] by (simp add: zs_def)
qed

lemma entries_mset: "mset ms' = mset ms \<Longrightarrow> mset (entries ms') = mset (entries ms)"
  by (simp add: entries_def)

lemma entries_distinct: "distinct (map snd ms) \<Longrightarrow> distinct (map fst (entries ms))"
proof (induction ms)
  case Nil
  then show ?case by (simp add: entries_def)
next
  case (Cons m ms)
  obtain t k where m: "m = (t, k)"
    by (cases m)
  have "k \<notin> fst ` set (entries ms)"
    using Cons.prems entries_keys [of ms] by (auto simp: m)
  then show ?case
    using Cons by (simp add: m entries_Cons)
qed

lemma reassembly_perm:
  assumes "distinct (map snd ms)" "mset ms' = mset ms"
  shows "correctedTranscription (receive ms') = correctedTranscription (receive ms)"
proof -
  have "mset (map snd ms') = mset (map snd ms)"
    using assms(2) by simp
  then have d': "distinct (map snd ms')"
    using assms(1) by (metis mset_eq_imp_distinct_iff)
  have "sort_key fst (entries ms') = sort_key fst (entries ms)"
    by (rule sort_key_perm_distinct [OF entries_mset [OF assms(2)] entries_distinct [OF assms(1)]])
  then show ?thesis
    by (simp add: receive_entries(2) [OF assms(1)] receive_entries(2) [OF d'])
qed

lemma corrected_of_append: "corrected_of (xs @ ys) = corrected_of xs @ corrected_of ys"
  by (induction xs rule: corrected_of.induct) simp_all

lemma corrected_of_messages:
  "corrected_of (corrected_messages v k r) = []
   \<or> (\<exists>t. corrected_of (corrected_messages v k r) = [(t, k)])"
  by (simp add: corrected_messages_def split: api_result.splits option.splits server.splits)

lemma ids_inv_sent_other:
  "ids_inv s \<Longrightarrow> corrected_of ms = [] \<Longrightarrow> ids_inv (s\<lparr>sent := sent s @ ms\<rparr>)"
  by (simp add: ids_inv_def corrected_of_append)

lemma processBatchAudio_ids:
  assumes "ids_inv s"
  shows "ids_inv (processBatchAudio v s)"
proof (cases "isProcessingBatch s \<or> audioBuffer s = []")
  case True
  then show ?thesis
    using assms by (simp add: processBatchAudio_blocked)
next
  case False
  have lt: "list_all (\<lambda>i. i < transcriptionCounter s)
      (map snd (corrected_of (sent s)) @ map chunkId (pending s))"
    using assms by (simp add: ids_inv_def)
  then have fresh: "transcriptionCounter s \<notin> set (map snd (corrected_of (sent s)) @ map chunkId (pending s))"
    by (auto simp: list_all_iff)
  have lt': "list_all (\<lambda>i. i < Suc (transcriptionCounter s))
      (map snd (corrected_of (sent s)) @ map chunkId (pending s))"
    using lt by (rule list.pred_mono_strong) simp
  show ?thesis
    using False assms fresh lt'
    by (auto simp: processBatchAudio_def drain_def ids_inv_def split: sum.splits)
qed

lemma batch_finished_ids:
  assumes "ids_inv s"
  shows "ids_inv (batch_finished v k r s)"
proof (cases "k \<in> set (map chunkId (pending s))")
  case False
  then show ?thesis
    using assms by (simp add: batch_finished_def)
next
  case True
  have d: "distinct (map snd (corrected_of (sent s)) @ map chunkId (pending s))"
    and lt: "list_all (\<lambda>i. i < transcriptionCounter s)
      (map snd (corrected_of (sent s)) @ map chunkId (pending s))"
    using assms by (simp_all add: ids_inv_def)
  have k1: "k \<notin> set (map snd (corrected_of (sent s)))"
    using d True by auto
  have k2: "k < transcriptionCounter s"
    using lt True by (auto simp: list_all_iff)
  have f: "map chunkId (filter (\<lambda>q. chunkId q \<noteq> k) (pending s))
      = filter (\<lambda>i. i \<noteq> k) (map chunkId (pending s))"
    by (simp add: filter_map comp_def)
  have d': "distinct (map snd (corrected_of (sent s)) @ [k]
      @ filter (\<lambda>i. i \<noteq> k) (map chunkId (pending s)))"
    using d k1 by auto
  have d'': "distinct (map snd (corrected_of (sent s))
      @ filter (\<lambda>i. i \<noteq> k) (map chunkId (pending s)))"
    using d by auto
  have l': "list_all (\<lambda>i. i < transcriptionCounter s)
      (filter (\<lambda>i. i \<noteq> k) (map chunkId (pending s)))"
    using lt by (auto simp: list_all_iff)
  have l0: "list_all (\<lambda>i. i < transcriptionCounter s) (map snd (corrected_of (sent s)))"
    using lt by simp
  have st: "batch_finished v k r s =
      s\<lparr>pending := filter (\<lambda>q. chunkId q \<noteq> k) (pending s),
        sent := sent s @ corrected_messages v k r, isProcessingBatch := False\<rparr>"
    using True by (simp add: batch_finished_def)
  consider "corrected_of (corrected_messages v k r) = []"
    | t where "corrected_of (corrected_messages v k r) = [(t, k)]"
    using corrected_of_messages [of v k r] by blast
  then show ?thesis
  proof cases
    case 1
    then show ?thesis
      using d'' l' l0 by (simp add: st ids_inv_def corrected_of_append f)
  next
    case 2
    then show ?thesis
      using d' l' l0 k2 by (simp add: st ids_inv_def corrected_of_append f)
  qed
qed

lemma on_message_ids:
  assumes "ids_inv s"
  shows "ids_inv (on_message v m relay s)"
  using assms
  by (simp add: on_message_def ids_inv_def append_fragment_def corrected_of_append Let_def
      split: client_msg.splits option.splits server.splits)

lemma on_close_ids:
  assumes "ids_inv s"
  shows "ids_inv (on_close v s)"
proof (cases v)
  case Alternate
  then show ?thesis
    using assms by (simp add: on_close_def ids_inv_def)
next
  case Backend
  have "ids_inv (if audioBuffer s \<noteq> [] then processBatchAudio Backend s else s)"
    using assms processBatchAudio_ids by simp
  then show ?thesis
    using Backend by (simp add: on_close_def ids_inv_def Let_def)
qed

lemma step_ids:
  assumes "ids_inv s"
  shows "ids_inv (step v s e)"
proof (cases e)
  case (ClientMessage m relay)
  then show ?thesis using assms on_message_ids by simp
next
  case TimerTick
  then show ?thesis using assms processBatchAudio_ids by simp
next
  case (BatchFinished k r)
  then show ?thesis using assms batch_finished_ids by simp
next
  case ClientClose
  then show ?thesis using assms on_close_ids by simp
qed (use assms in \<open>simp_all add: ids_inv_def onopen_def connect_resolved_def
    connect_failed_def onmessage_def onerror_def onclose_def corrected_of_append
    split: option.splits\<close>)

lemma run_ids: "ids_inv s \<Longrightarrow> ids_inv (run v es s)"
  unfolding run_def
  by (induction es arbitrary: s) (simp_all add: step_ids)

lemma initial_ids: "ids_inv initial"
  by (simp add: ids_inv_def initial_def)

text \<open>
  Claim C7. A drain that passes the guard takes the counter's value as the chunk id and
  increases the counter by one; a stopped drain leaves the counter. A batch reply sends at
  most one corrected transcription, with the chunk id of its drain, so the corrected
  transcriptions a connection has sent carry pairwise different chunk ids, whatever the
  order in which the requests completed. For messages with different chunk ids the
  client's text is the texts joined in the order of the ids, so it is the same for every
  order of arrival, and that holds for the messages of every run of the server.
\<close>

theorem sequence_numbers_and_reassembly:
  "fst (drain s) =
     (if isProcessingBatch s \<or> audioBuffer s = [] then None
      else Some (audioBuffer s, transcriptionCounter s))
   \<and> transcriptionCounter (snd (drain s)) =
     (if isProcessingBatch s \<or> audioBuffer s = [] then transcriptionCounter s
      else transcriptionCounter s + 1)
   \<and> (corrected_of (corrected_messages v k r) = []
      \<or> (\<exists>t. corrected_of (corrected_messages v k r) = [(t, k)]))
   \<and> distinct (map snd (corrected_of (sent (run v es initial))))
   \<and> (distinct (map snd ms) \<longrightarrow>
        correctedTranscription (receive ms) = join_space (map snd (sort_key fst (entries ms))))
   \<and> (distinct (map snd ms) \<and> mset ms' = mset ms \<longrightarrow>
        correctedTranscription (receive ms') = correctedTranscription (receive ms))
   \<and> (mset ms'' = mset (corrected_of (sent (run v es initial))) \<longrightarrow>
        correctedTranscription (receive ms'')
          = correctedTranscription (receive (corrected_of (sent (run v es initial)))))"
proof -
  have 1: "fst (drain s) =
     (if isProcessingBatch s \<or> audioBuffer s = [] then None
      else Some (audioBuffer s, transcriptionCounter s))"
    "transcriptionCounter (snd (drain s)) =
     (if isProcessingBatch s \<or> audioBuffer s = [] then transcriptionCounter s
      else transcriptionCounter s + 1)"
    by (simp_all add: drain_def)
  have "ids_inv (run v es initial)"
    by (rule run_ids [OF initial_ids])
  then have 2: "distinct (map snd (corrected_of (sent (run v es initial))))"
    by (simp add: ids_inv_def)
  have 3: "correctedTranscription (receive ms) = join_space (map snd (sort_key fst (entries ms)))"
    if "distinct (map snd ms)"
    by (rule receive_entries(2) [OF that])
  have 4: "correctedTranscription (receive ms') = correctedTranscription (receive ms)"
    if "distinct (map snd ms) \<and> mset ms' = mset ms"
    using reassembly_perm [of ms ms'] that by simp
  have 5: "correctedTranscription (receive ms'')
          = correctedTranscription (receive (corrected_of (sent (run v es initial))))"
    if "mset ms'' = mset (corrected_of (sent (run v es initial)))"
    by (rule reassembly_perm [OF 2 that])
  show ?thesis
    using 1 corrected_of_messages [of v k r] 2 3 4 5 by blast
qed

lemma run_example_corrected:
  "corrected_of (sent (run Backend [ConnectResolved, SessionOpen,
      ClientMessage (Json (Some ''audio'') ''QUJDRA=='' []) None, TimerTick,
      ClientMessage (Json (Some ''audio'') ''RUZHSA=='' []) None,
      BatchFinished 0 (Replied (Some '' one '')), TimerTick,
      BatchFinished 1 (Replied (Some ''two''))] initial))
   = [(''one'', 0), (''two'', 1)]"
  by code_simp

theorem sequence_numbers_and_reassembly_witness:
  "distinct (map snd [(''one'', 1), (''two'', 2), (''three'', 3 :: nat)])
   \<and> mset [(''three'', 3), (''one'', 1), (''two'', 2 :: nat)]
       = mset [(''one'', 1), (''two'', 2), (''three'', 3)]
   \<and> correctedTranscription (receive [(''one'', 1), (''two'', 2), (''three'', 3)])
       = ''one two three''
   \<and> correctedTranscription (receive [(''three'', 3), (''one'', 1), (''two'', 2)])
       = ''one two three''
   \<and> mset [(''two'', 1), (''one'', 0 :: nat)]
       = mset (corrected_of (sent (run Backend [ConnectResolved, SessionOpen,
            ClientMessage (Json (Some ''audio'') ''QUJDRA=='' []) None, TimerTick,
            ClientMessage (Json (Some ''audio'') ''RUZHSA=='' []) None,
            BatchFinished 0 (Replied (Some '' one '')), TimerTick,
            BatchFinished 1 (Replied (Some ''two''))] initial)))
   \<and> correctedTranscription (receive [(''two'', 1), (''one'', 0)]) = ''one two''"
proof -
  note t = sequence_numbers_and_reassembly [of initial Backend 0 Rejected
      "[ConnectResolved, SessionOpen,
        ClientMessage (Json (Some ''audio'') ''QUJDRA=='' []) None, TimerTick,
        ClientMessage (Json (Some ''audio'') ''RUZHSA=='' []) None,
        BatchFinished 0 (Replied (Some '' one '')), TimerTick,
        BatchFinished 1 (Replied (Some ''two''))]"
      "[(''one'', 1), (''two'', 2), (''three'', 3)]" "[(''three'', 3), (''one'', 1), (''two'', 2)]"
      "[(''two'', 1), (''one'', 0)]", unfolded run_example_corrected]
  show ?thesis
    unfolding run_example_corrected using t
    by (simp add: entries_def receive_def client_initial_def on_corrected_def)
qed

section \<open>Verification: combining the fragments\<close>

lemma alternate_concatenation:
  "pcmData Alternate currentBuffer = concat (map base64_decode currentBuffer)"
  by (simp add: pcmData_def combinedPCMBase64_def base64_roundtrip)

lemma unbase64_pad: "unbase64 CHR ''='' = None"
  by (simp add: unbase64_def)

lemma sextets_append:
  "list_all (\<lambda>c. unbase64 c \<noteq> None) s \<Longrightarrow> sextets (s @ t) = sextets s @ sextets t"
proof (induction s)
  case Nil
  then show ?case by simp
next
  case (Cons c s)
  then have "c \<noteq> CHR ''=''"
    using unbase64_pad by auto
  then show ?case
    using Cons by (auto split: option.splits)
qed

lemma length_sextets:
  "list_all (\<lambda>c. unbase64 c \<noteq> None) s \<Longrightarrow> length (sextets s) = length s"
proof (induction s)
  case Nil
  then show ?case by simp
next
  case (Cons c s)
  then have "c \<noteq> CHR ''=''"
    using unbase64_pad by auto
  then show ?case
    using Cons by (auto split: option.splits)
qed

lemma pack_append: "length xs mod 4 = 0 \<Longrightarrow> pack (xs @ ys) = pack xs @ pack ys"
  by (induction xs rule: pack.induct) simp_all

lemma backend_join_unpadded:
  "list_all unpadded currentBuffer \<Longrightarrow>
   pcmData Backend currentBuffer = concat (map base64_decode currentBuffer)"
proof (induction currentBuffer)
  case Nil
  then show ?case
    by (simp add: pcmData_def combinedPCMBase64_def base64_decode_def)
next
  case (Cons f fs)
  have fs: "list_all unpadded fs" and f: "unpadded f"
    using Cons.prems by simp_all
  have v: "list_all (\<lambda>c. unbase64 c \<noteq> None) f" and l: "length f mod 4 = 0"
    using f by (simp_all add: unpadded_def)
  have "pack (sextets (f @ concat fs)) = pack (sextets f) @ pack (sextets (concat fs))"
    using pack_append [of "sextets f" "sextets (concat fs)"] l
    by (simp add: sextets_append [OF v] length_sextets [OF v])
  then show ?case
    using Cons.IH [OF fs] by (simp add: pcmData_def combinedPCMBase64_def base64_decode_def)
qed

text \<open>
  Claim C6 at two fragments of one byte each, \<^verbatim>\<open>QQ==\<close> and \<^verbatim>\<open>Qg==\<close>: decoded one by one
  and concatenated they are the bytes 65 and 66, which is what the second server combines;
  backend/server.js decodes the joined text \<^verbatim>\<open>QQ==Qg==\<close>, where the decoder stops at the
  first padding character, and is left with the byte 65 alone.
\<close>

theorem joined_base64_is_cut:
  "concat (map base64_decode [''QQ=='', ''Qg=='']) = [65, 66]
   \<and> pcmData Alternate [''QQ=='', ''Qg==''] = [65, 66]
   \<and> pcmData Backend [''QQ=='', ''Qg==''] = [65]"
  by code_simp

end
